theory Spec2Isabelle
  imports Complex_Main
begin

section \<open>Python values and errors\<close>

text \<open>
  The exceptions the modelled code can raise: \<open>list.remove\<close>, \<open>list.index\<close> and
  \<open>max\<close> of an empty sequence raise ValueError, an index out of range and a
  \<open>pop\<close> from an empty list raise IndexError, arithmetic on \<open>None\<close> raises
  TypeError, a division of integers whose quotient is beyond the doubles raises
  OverflowError.  A computation that may raise returns \<open>error + 'a\<close>.
\<close>

datatype error = ValueError | IndexError | TypeError | OverflowError

text \<open>Python indexing \<open>xs[i]\<close>: a negative index counts from the end.\<close>

definition py_get :: "'a list \<Rightarrow> int \<Rightarrow> error + 'a" where
  "py_get xs i =
     (if 0 \<le> i \<and> i < int (length xs) then Inr (xs ! nat i)
      else if i < 0 \<and> - int (length xs) \<le> i then Inr (xs ! nat (int (length xs) + i))
      else Inl IndexError)"

text \<open>Python slicing \<open>xs[:n]\<close>.\<close>

definition py_slice_to :: "'a list \<Rightarrow> int \<Rightarrow> 'a list" where
  "py_slice_to xs n = (if 0 \<le> n then take (nat n) xs else take (nat (int (length xs) + n)) xs)"

text \<open>\<open>xs.remove(x)\<close>: removes the first occurrence, raises ValueError if there is none.\<close>

definition py_remove :: "'a \<Rightarrow> 'a list \<Rightarrow> error + 'a list" where
  "py_remove x xs = (if x \<in> set xs then Inr (remove1 x xs) else Inl ValueError)"

text \<open>\<open>max(xs)\<close> of a list of integers: raises ValueError on the empty list.\<close>

fun py_max :: "int list \<Rightarrow> error + int" where
  "py_max [] = Inl ValueError"
| "py_max (x # xs) = Inr (fold max xs x)"

text \<open>\<open>xs.index(x)\<close>: the first position of \<open>x\<close>, ValueError if there is none.\<close>

fun py_index :: "'a list \<Rightarrow> 'a \<Rightarrow> error + nat" where
  "py_index [] x = Inl ValueError"
| "py_index (y # ys) x =
     (if y = x then Inr 0
      else (case py_index ys x of Inl e \<Rightarrow> Inl e | Inr i \<Rightarrow> Inr (Suc i)))"

text \<open>
  \<open>math.ceil(k / 2)\<close>, and \<open>math.ceil(0.5 * k)\<close>, for an integer \<open>k\<close>, with the
  quotient taken exactly.  Python
  computes the quotient as a double, which is the exact quotient as long as
  \<open>\<bar>k\<bar> \<le> 2 ^ 53\<close>; \<open>float_ceil_half\<close> below is the expression with the rounding of
  doubles, and \<open>float_ceil_half_exact\<close> shows that the two agree on that range.  The
  functions of the game are modelled with the exact ceiling.
\<close>

definition ceil_half :: "int \<Rightarrow> int" where
  "ceil_half k = (k + 1) div 2"

text \<open>\<open>n.bit_length()\<close> of a natural number: the number of its binary digits.\<close>

fun bit_length :: "nat \<Rightarrow> nat" where
  "bit_length n = (if n = 0 then 0 else Suc (bit_length (n div 2)))"

declare bit_length.simps [simp del]

text \<open>\<open>n / 2 ^ s\<close> rounded to the nearest integer, a tie to the even one.\<close>

definition round_half_even :: "nat \<Rightarrow> nat \<Rightarrow> nat" where
  "round_half_even n s =
     (let q = n div 2 ^ s; r = 2 * (n mod 2 ^ s)
      in if 2 ^ s < r \<or> (r = 2 ^ s \<and> odd q) then q + 1 else q)"

text \<open>
  \<open>k / 2\<close> for an integer \<open>k\<close>, as a double: the double nearest to the quotient, a tie
  going to the even significand.  A double has 53 significant bits, so the bits of
  \<open>\<bar>k\<bar>\<close> beyond the first 53 are rounded away; the division raises OverflowError when
  the rounded quotient is \<open>2 ^ 1024\<close> or more.  The double is given by the real number
  it stands for.
\<close>

definition truediv_2 :: "int \<Rightarrow> error + real" where
  "truediv_2 k =
     (let n = nat \<bar>k\<bar>;
          s = bit_length n - 53;
          m = round_half_even n s * 2 ^ s
      in if 2 ^ 1025 \<le> m then Inl OverflowError
         else Inr (real_of_int (sgn k * int m) / 2))"

text \<open>\<open>math.ceil(k / 2)\<close> as Python computes it; \<open>math.ceil\<close> of a double is exact.\<close>

definition float_ceil_half :: "int \<Rightarrow> error + int" where
  "float_ceil_half k = (case truediv_2 k of Inl e \<Rightarrow> Inl e | Inr x \<Rightarrow> Inr \<lceil>x\<rceil>)"

section \<open>leyline.py\<close>

text \<open>
  A leyline's \<open>value\<close> is its number (an int) until a player captures it, then the
  player's tag (the string \<open>'1'\<close> or \<open>'2'\<close>); the code tests \<open>type(ley.value) == int\<close>.
\<close>

datatype ley_val = IntVal int | StrVal string

record Leyline =
  ley_value :: ley_val
  letters :: "string list"

definition Leyline_init :: "ley_val \<Rightarrow> Leyline" where
  "Leyline_init v = \<lparr>ley_value = v, letters = []\<rparr>"

fun is_int :: "ley_val \<Rightarrow> bool" where
  "is_int (IntVal _) = True"
| "is_int (StrVal _) = False"

section \<open>stonehenge\_state.py\<close>

text \<open>The class constant \<open>ALPHA\<close>: the 26 capital letters, each a string of one character.\<close>

definition ALPHA :: "string list" where
  "ALPHA = map (\<lambda>c. [c]) ''ABCDEFGHIJKLMNOPQRSTUVWXYZ''"

record StonehengeState =
  p1_turn :: bool
  b_length :: int
  p1_score :: int
  p2_score :: int
  h_lines :: "Leyline list"
  r_lines :: "Leyline list"
  l_lines :: "Leyline list"
  possible_moves :: "string list"

text \<open>
  \<open>StonehengeState.__init__\<close>.  \<open>num = int(0.5 * (b_length**2 + 5*b_length))\<close>: the
  product \<open>b_length * (b_length + 5)\<close> is even, so the half is exact.
\<close>

definition StonehengeState_init ::
  "bool \<Rightarrow> int \<Rightarrow> int \<Rightarrow> int \<Rightarrow> Leyline list \<Rightarrow> Leyline list \<Rightarrow> Leyline list \<Rightarrow> StonehengeState" where
  "StonehengeState_init is_p1 b p1 p2 hl rl ll =
     \<lparr>p1_turn = is_p1, b_length = b, p1_score = p1, p2_score = p2,
      h_lines = hl, r_lines = rl, l_lines = ll,
      possible_moves = py_slice_to ALPHA ((b * b + 5 * b) div 2)\<rparr>"

definition get_possible_moves :: "StonehengeState \<Rightarrow> string list" where
  "get_possible_moves self = possible_moves self"

text \<open>
  \<open>change_leyline\<close> writes the leyline's value and the state's scores; the model
  returns both.  The two tests are two separate \<open>if\<close>s, the second one sees the
  value the first one may have written.
\<close>

definition change_leyline :: "StonehengeState \<Rightarrow> Leyline \<Rightarrow> StonehengeState \<times> Leyline" where
  "change_leyline self ley =
     (let threshold = nat (ceil_half (int (length (letters ley))));
          (self1, ley1) =
            (if count_list (letters ley) ''1'' \<ge> threshold \<and> is_int (ley_value ley)
             then (self\<lparr>p1_score := p1_score self + 1\<rparr>, ley\<lparr>ley_value := StrVal ''1''\<rparr>)
             else (self, ley))
      in (if count_list (letters ley1) ''2'' \<ge> threshold \<and> is_int (ley_value ley1)
          then (self1\<lparr>p2_score := p2_score self1 + 1\<rparr>, ley1\<lparr>ley_value := StrVal ''2''\<rparr>)
          else (self1, ley1)))"

text \<open>The inner loop of \<open>change_letter\<close>: the first index at which the letter is \<open>move\<close>.\<close>

fun find_letter :: "string \<Rightarrow> string list \<Rightarrow> nat option" where
  "find_letter move [] = None"
| "find_letter move (x # xs) =
     (if x = move then Some 0 else map_option Suc (find_letter move xs))"

text \<open>
  \<open>change_letter\<close>: in the first leyline of \<open>line_list\<close> that holds \<open>move\<close>, the first
  such letter is replaced by the mover's tag (\<open>insert(i, player)\<close> then \<open>pop(i + 1)\<close>),
  \<open>change_leyline\<close> is run on that leyline, and both loops stop.
\<close>

fun change_letter :: "StonehengeState \<Rightarrow> string \<Rightarrow> Leyline list \<Rightarrow> StonehengeState \<times> Leyline list" where
  "change_letter self move [] = (self, [])"
| "change_letter self move (leyline # rest) =
     (case find_letter move (letters leyline) of
        Some i \<Rightarrow>
          (let player = (if p1_turn self then ''1'' else ''2'');
               (self', ley') = change_leyline self (leyline\<lparr>letters := (letters leyline)[i := player]\<rparr>)
           in (self', ley' # rest))
      | None \<Rightarrow>
          (let (self', rest') = change_letter self move rest in (self', leyline # rest')))"

definition win_threshold :: "StonehengeState \<Rightarrow> int" where
  "win_threshold s = ceil_half (3 * (b_length s + 1))"

text \<open>
  \<open>make_move\<close>: the three families are deep-copied into a new state, the letter is
  changed in each family, then the move is removed from a copy of the receiver's moves
  (ValueError if it is not there) and the turn flips; a score at the threshold empties
  the moves.
\<close>

definition make_move :: "StonehengeState \<Rightarrow> string \<Rightarrow> error + StonehengeState" where
  "make_move self move =
     (let ss = StonehengeState_init (p1_turn self) (b_length self) (p1_score self)
                 (p2_score self) (h_lines self) (r_lines self) (l_lines self);
          (ss, hl) = change_letter ss move (h_lines ss);
          ss = ss\<lparr>h_lines := hl\<rparr>;
          (ss, rl) = change_letter ss move (r_lines ss);
          ss = ss\<lparr>r_lines := rl\<rparr>;
          (ss, ll) = change_letter ss move (l_lines ss);
          ss = ss\<lparr>l_lines := ll\<rparr>;
          moves = get_possible_moves self
      in (case py_remove move moves of
            Inl e \<Rightarrow> Inl e
          | Inr moves' \<Rightarrow>
              (let ss = ss\<lparr>possible_moves := moves'\<rparr>;
                   ss = ss\<lparr>p1_turn := \<not> p1_turn ss\<rparr>;
                   threshold = win_threshold ss
               in Inr (if p1_score ss \<ge> threshold \<or> p2_score ss \<ge> threshold
                       then ss\<lparr>possible_moves := []\<rparr> else ss))))"

text \<open>\<open>give_copy\<close>: a deep copy of the receiver makes the move.\<close>

definition give_copy :: "StonehengeState \<Rightarrow> string \<Rightarrow> error + StonehengeState" where
  "give_copy self move = make_move self move"

definition check_good_move :: "StonehengeState \<Rightarrow> string \<Rightarrow> error + bool" where
  "check_good_move self move =
     (case give_copy self move of
        Inl e \<Rightarrow> Inl e
      | Inr new_state \<Rightarrow>
          (let threshold = win_threshold new_state
           in Inr (p1_score new_state \<ge> threshold \<or> p2_score new_state \<ge> threshold)))"

text \<open>A list comprehension whose element expression may raise: the first error wins.\<close>

fun map_result :: "('a \<Rightarrow> error + 'b) \<Rightarrow> 'a list \<Rightarrow> error + 'b list" where
  "map_result f [] = Inr []"
| "map_result f (x # xs) =
     (case f x of
        Inl e \<Rightarrow> Inl e
      | Inr y \<Rightarrow> (case map_result f xs of Inl e \<Rightarrow> Inl e | Inr ys \<Rightarrow> Inr (y # ys)))"

definition list_states :: "StonehengeState \<Rightarrow> error + StonehengeState list" where
  "list_states self = map_result (give_copy self) (possible_moves self)"

text \<open>
  The generator handed to \<open>all\<close> in \<open>rough_outcome\<close> yields, for each state \<open>s\<close> of
  \<open>list_states()\<close>, the list \<open>[s.check_good_move(m) for m in s.possible_moves]\<close>;
  \<open>all\<close> tests the truth value of each list, which is whether it is non-empty, and stops
  at the first empty one.
\<close>

fun all_lists_truthy :: "StonehengeState list \<Rightarrow> error + bool" where
  "all_lists_truthy [] = Inr True"
| "all_lists_truthy (s # rest) =
     (case map_result (check_good_move s) (possible_moves s) of
        Inl e \<Rightarrow> Inl e
      | Inr bs \<Rightarrow> (if bs \<noteq> [] then all_lists_truthy rest else Inr False))"

text \<open>
  \<open>rough_outcome\<close>.  The first test reads \<open>self.p1_score\<close> on both sides of its
  \<open>or\<close>, as the source does.
\<close>

definition rough_outcome :: "StonehengeState \<Rightarrow> error + int" where
  "rough_outcome self =
     (let threshold = win_threshold self
      in if p1_score self \<ge> threshold \<or> p1_score self \<ge> threshold then Inr (- 1)
         else (case map_result (check_good_move self) (possible_moves self) of
                 Inl e \<Rightarrow> Inl e
               | Inr goods \<Rightarrow>
                   if list_ex (\<lambda>b. b) goods then Inr 1
                   else (case list_states self of
                           Inl e \<Rightarrow> Inl e
                         | Inr states \<Rightarrow>
                             (case all_lists_truthy states of
                                Inl e \<Rightarrow> Inl e
                              | Inr b \<Rightarrow> if b then Inr (- 1) else Inr 0))))"

section \<open>stonehenge.py\<close>

record Stonehenge =
  hoz_lines :: "Leyline list"
  right_lines :: "Leyline list"
  left_lines :: "Leyline list"
  current_state :: StonehengeState

text \<open>\<open>while p < k: ley.letters.append(a.pop(0))\<close>: IndexError once \<open>a\<close> is empty.\<close>

fun pop_letters :: "nat \<Rightarrow> string list \<Rightarrow> string list \<Rightarrow> error + (string list \<times> string list)" where
  "pop_letters 0 acc a = Inr (acc, a)"
| "pop_letters (Suc k) acc a =
     (case a of [] \<Rightarrow> Inl IndexError | x # a' \<Rightarrow> pop_letters k (acc @ [x]) a')"

text \<open>The loop of \<open>generate_hoz\<close> over \<open>i\<close> in \<open>range(1, n + 2)\<close>.\<close>

fun hoz_loop :: "int \<Rightarrow> int list \<Rightarrow> string list \<Rightarrow> error + Leyline list" where
  "hoz_loop n [] a = Inr []"
| "hoz_loop n (i # rest) a =
     (case pop_letters (nat (if i \<le> n then i + 1 else n)) [] a of
        Inl e \<Rightarrow> Inl e
      | Inr (ls, a') \<Rightarrow>
          (case hoz_loop n rest a' of
             Inl e \<Rightarrow> Inl e
           | Inr lines \<Rightarrow> Inr (\<lparr>ley_value = IntVal i, letters = ls\<rparr> # lines)))"

definition generate_hoz :: "int \<Rightarrow> error + Leyline list" where
  "generate_hoz num = hoz_loop num [1..num + 1] ALPHA"

text \<open>\<open>hl[j].letters[k]\<close>.\<close>

definition letter_at :: "Leyline list \<Rightarrow> int \<Rightarrow> int \<Rightarrow> error + string" where
  "letter_at hl j k = (case py_get hl j of Inl e \<Rightarrow> Inl e | Inr row \<Rightarrow> py_get (letters row) k)"

text \<open>The first loop of \<open>generate_right_diag_lines\<close>; \<open>start\<close> grows from the second line on.\<close>

fun right_loop :: "int \<Rightarrow> Leyline list \<Rightarrow> int list \<Rightarrow> int \<Rightarrow> error + Leyline list" where
  "right_loop n hl [] start = Inr []"
| "right_loop n hl (i # rest) start =
     (case map_result (\<lambda>j. letter_at hl j (if i = 1 then 0 else i - 1)) [start..n - 1] of
        Inl e \<Rightarrow> Inl e
      | Inr ls \<Rightarrow>
          (case right_loop n hl rest (if i = 1 then start else start + 1) of
             Inl e \<Rightarrow> Inl e
           | Inr lines \<Rightarrow> Inr (\<lparr>ley_value = IntVal i, letters = ls\<rparr> # lines)))"

text \<open>
  The second loop, over \<open>i\<close> in \<open>range(1, len(right_lines))\<close>: the letters of the
  last row are appended, one to each line after the first.
\<close>

fun right_fill :: "int \<Rightarrow> Leyline list \<Rightarrow> nat list \<Rightarrow> int \<Rightarrow> Leyline list \<Rightarrow> error + Leyline list" where
  "right_fill n hl [] counter lines = Inr lines"
| "right_fill n hl (i # rest) counter lines =
     (case letter_at hl n counter of
        Inl e \<Rightarrow> Inl e
      | Inr x \<Rightarrow>
          right_fill n hl rest (counter + 1)
            (lines[i := (lines ! i)\<lparr>letters := letters (lines ! i) @ [x]\<rparr>]))"

definition generate_right_diag_lines :: "Leyline list \<Rightarrow> int \<Rightarrow> error + Leyline list" where
  "generate_right_diag_lines self_hoz_lines num =
     (case right_loop num self_hoz_lines [1..num + 1] 0 of
        Inl e \<Rightarrow> Inl e
      | Inr lines \<Rightarrow> right_fill num self_hoz_lines [1..<length lines] 0 lines)"

text \<open>
  The first loop of \<open>generate_left_diag_lines\<close>: the letter \<open>i\<close> places from the end
  of each row, the line reversed; \<open>start\<close> is reset after the first line.
\<close>

fun left_loop :: "int \<Rightarrow> Leyline list \<Rightarrow> int list \<Rightarrow> int \<Rightarrow> error + Leyline list" where
  "left_loop n hl [] start = Inr []"
| "left_loop n hl (i # rest) start =
     (case map_result
             (\<lambda>j. case py_get hl j of
                     Inl e \<Rightarrow> Inl e
                   | Inr row \<Rightarrow> py_get (letters row) (int (length (letters row)) - i))
             [start..n - 1] of
        Inl e \<Rightarrow> Inl e
      | Inr ls \<Rightarrow>
          (case left_loop n hl rest (if i = 1 then 0 else start + 1) of
             Inl e \<Rightarrow> Inl e
           | Inr lines \<Rightarrow> Inr (\<lparr>ley_value = IntVal i, letters = rev ls\<rparr> # lines)))"

text \<open>
  The second loop, over \<open>i\<close> in \<open>range(len(left_lines) - 1, 0, -1)\<close>: the letters of
  the last row are put in front, the first of them on the last line.
\<close>

fun left_fill :: "int \<Rightarrow> Leyline list \<Rightarrow> nat list \<Rightarrow> int \<Rightarrow> Leyline list \<Rightarrow> error + Leyline list" where
  "left_fill n hl [] counter lines = Inr lines"
| "left_fill n hl (i # rest) counter lines =
     (case letter_at hl n counter of
        Inl e \<Rightarrow> Inl e
      | Inr x \<Rightarrow>
          left_fill n hl rest (counter + 1)
            (lines[i := (lines ! i)\<lparr>letters := x # letters (lines ! i)\<rparr>]))"

definition generate_left_diag_lines :: "Leyline list \<Rightarrow> int \<Rightarrow> error + Leyline list" where
  "generate_left_diag_lines self_hoz_lines num =
     (case left_loop num self_hoz_lines [1..num + 1] 0 of
        Inl e \<Rightarrow> Inl e
      | Inr lines \<Rightarrow> left_fill num self_hoz_lines (rev [1..<length lines]) 0 lines)"

text \<open>
  \<open>Stonehenge.__init__\<close>; the board length read from the input is the second argument.
\<close>

definition Stonehenge_init :: "bool \<Rightarrow> int \<Rightarrow> error + Stonehenge" where
  "Stonehenge_init is_p1 b =
     (case generate_hoz b of
        Inl e \<Rightarrow> Inl e
      | Inr hl \<Rightarrow>
          (case generate_right_diag_lines hl b of
             Inl e \<Rightarrow> Inl e
           | Inr rl \<Rightarrow>
               (case generate_left_diag_lines hl b of
                  Inl e \<Rightarrow> Inl e
                | Inr ll \<Rightarrow>
                    Inr \<lparr>hoz_lines = hl, right_lines = rl, left_lines = ll,
                         current_state = StonehengeState_init is_p1 b 0 0 hl rl ll\<rparr>)))"

text \<open>
  \<open>is_over\<close> and \<open>is_winner\<close>.  The threshold \<open>math.ceil(3 * (b_length + 1) / 2)\<close> is
  the exact ceiling \<open>ceil_half\<close>, which is what the code computes for every board
  length with \<open>\<bar>3 * (b_length + 1)\<bar> \<le> 2 ^ 53\<close>, that is up to \<open>3002399751580329\<close>.
\<close>

definition is_over :: "Stonehenge \<Rightarrow> StonehengeState \<Rightarrow> bool" where
  "is_over self state =
     (let threshold = ceil_half (3 * (b_length state + 1))
      in if p1_score state \<ge> threshold \<or> p2_score state \<ge> threshold then True else False)"

definition is_winner :: "Stonehenge \<Rightarrow> string \<Rightarrow> bool" where
  "is_winner self player =
     (let threshold = ceil_half (3 * (b_length (current_state self) + 1))
      in if player = ''p1'' \<and> p1_score (current_state self) \<ge> threshold then True
         else if player = ''p2'' \<and> p2_score (current_state self) \<ge> threshold then True
         else False)"

section \<open>strategy.py\<close>

text \<open>
  \<open>g = copy.deepcopy(game); s = g.current_state.make_move(move); g.current_state = s\<close>:
  the game that the loops of the strategies build for a move.
\<close>

definition game_after :: "Stonehenge \<Rightarrow> string \<Rightarrow> error + Stonehenge" where
  "game_after game move =
     (case make_move (current_state game) move of
        Inl e \<Rightarrow> Inl e
      | Inr s \<Rightarrow> Inr (game\<lparr>current_state := s\<rparr>))"

lemma map_result_cong [fundef_cong]:
  "xs = ys \<Longrightarrow> (\<And>x. x \<in> set ys \<Longrightarrow> f x = g x) \<Longrightarrow> map_result f xs = map_result g ys"
  by (induction ys arbitrary: xs) (auto split: sum.splits)

lemma map_result_member:
  "map_result f xs = Inr ys \<Longrightarrow> y \<in> set ys \<Longrightarrow> \<exists>x \<in> set xs. f x = Inr y"
  by (induction xs arbitrary: ys) (auto split: sum.splits)

text \<open>What \<open>make_move\<close> does to the moves, whatever happens on the board.\<close>

lemma make_move_in_moves:
  "make_move s m = Inr s' \<Longrightarrow> m \<in> set (possible_moves s)"
  by (simp add: make_move_def py_remove_def get_possible_moves_def Let_def
      split: prod.splits if_splits)

lemma make_move_moves:
  "make_move s m = Inr s' \<Longrightarrow>
     possible_moves s' = [] \<or> possible_moves s' = remove1 m (possible_moves s)"
  by (auto simp: make_move_def py_remove_def get_possible_moves_def Let_def
      split: prod.splits if_splits)

lemma make_move_shrinks:
  assumes "make_move s m = Inr s'"
  shows "length (possible_moves s') < length (possible_moves s)"
proof -
  from assms have m: "m \<in> set (possible_moves s)" by (rule make_move_in_moves)
  then have pos: "0 < length (possible_moves s)" by (cases "possible_moves s") auto
  from make_move_moves [OF assms] show ?thesis
  proof
    assume "possible_moves s' = []"
    with pos show ?thesis by simp
  next
    assume "possible_moves s' = remove1 m (possible_moves s)"
    with m pos show ?thesis by (simp add: length_remove1)
  qed
qed

text \<open>
  \<open>recursive_helper\<close>: the games after each move are built first, then the list
  comprehension scores them in order, then \<open>max\<close> is taken.
\<close>

function recursive_helper :: "Stonehenge \<Rightarrow> error + int" where
  "recursive_helper game =
     (if is_over game (current_state game) then
        (if is_winner game ''p2'' \<or> is_winner game ''p1'' then Inr (- 1) else Inr 0)
      else
        (let moves = get_possible_moves (current_state game)
         in case map_result (game_after game) moves of
              Inl e \<Rightarrow> Inl e
            | Inr games_list \<Rightarrow>
                (case map_result recursive_helper games_list of
                   Inl e \<Rightarrow> Inl e
                 | Inr scores \<Rightarrow> py_max (map (\<lambda>v. - 1 * v) scores))))"
  by pat_completeness auto
termination
proof (relation "measure (\<lambda>g. length (possible_moves (current_state g)))")
  show "wf (measure (\<lambda>g. length (possible_moves (current_state g))))" by simp
next
  fix game :: Stonehenge and moves games_list c
  assume "moves = get_possible_moves (current_state game)"
    and gl: "map_result (game_after game) moves = Inr games_list"
    and c: "c \<in> set games_list"
  from map_result_member [OF gl c] obtain m where "game_after game m = Inr c" by blast
  then obtain s where "make_move (current_state game) m = Inr s" and "c = game\<lparr>current_state := s\<rparr>"
    by (auto simp: game_after_def split: sum.splits)
  then show "(c, game) \<in> measure (\<lambda>g. length (possible_moves (current_state g)))"
    using make_move_shrinks by auto
qed

declare recursive_helper.simps [simp del]

text \<open>
  The loop of \<open>recursive_minimax\<close>: for each move the game after it is built and
  scored by the helper, and \<open>-1\<close> times the score is appended.
\<close>

fun recursive_moves_scores :: "Stonehenge \<Rightarrow> string list \<Rightarrow> error + int list" where
  "recursive_moves_scores game [] = Inr []"
| "recursive_moves_scores game (move # rest) =
     (case game_after game move of
        Inl e \<Rightarrow> Inl e
      | Inr g \<Rightarrow>
          (case recursive_helper g of
             Inl e \<Rightarrow> Inl e
           | Inr v \<Rightarrow>
               (case recursive_moves_scores game rest of
                  Inl e \<Rightarrow> Inl e
                | Inr vs \<Rightarrow> Inr (- 1 * v # vs))))"

text \<open>\<open>moves[moves_scores.index(max(moves_scores))]\<close>.\<close>

definition pick_move :: "string list \<Rightarrow> int list \<Rightarrow> error + string" where
  "pick_move moves moves_scores =
     (case py_max moves_scores of
        Inl e \<Rightarrow> Inl e
      | Inr best \<Rightarrow>
          (case py_index moves_scores best of
             Inl e \<Rightarrow> Inl e
           | Inr i \<Rightarrow> py_get moves (int i)))"

definition recursive_minimax :: "Stonehenge \<Rightarrow> error + string" where
  "recursive_minimax game =
     (let moves = get_possible_moves (current_state game)
      in case recursive_moves_scores game moves of
           Inl e \<Rightarrow> Inl e
         | Inr moves_scores \<Rightarrow> pick_move moves moves_scores)"

text \<open>
  \<open>GameTree\<close> objects are shared between the stack and their parent's \<open>children\<close>
  list and are written through either reference, so \<open>iterative_helper\<close> is modelled
  over a store: a list of objects, an object's address is its position, and a new object
  is appended.
\<close>

record GameTree =
  children :: "nat list"
  score :: "int option"
  tree_game :: Stonehenge

definition GameTree_init :: "Stonehenge \<Rightarrow> GameTree" where
  "GameTree_init g = \<lparr>children = [], score = None, tree_game = g\<rparr>"

text \<open>
  The \<open>for move in moves\<close> loop of the branch that expands a node: a new node for the
  game after the move, appended to the children of \<open>curr_game\<close> and pushed.
\<close>

fun expand_loop :: "GameTree list \<Rightarrow> nat list \<Rightarrow> nat \<Rightarrow> string list \<Rightarrow> error + (GameTree list \<times> nat list)" where
  "expand_loop store s curr_game [] = Inr (store, s)"
| "expand_loop store s curr_game (move # rest) =
     (case game_after (tree_game (store ! curr_game)) move of
        Inl e \<Rightarrow> Inl e
      | Inr g \<Rightarrow>
          (let gt1 = length store;
               store1 = store @ [GameTree_init g];
               store2 = store1[curr_game :=
                 (store1 ! curr_game)\<lparr>children := children (store1 ! curr_game) @ [gt1]\<rparr>]
           in expand_loop store2 (s @ [gt1]) curr_game rest))"

text \<open>\<open>max([-1 * g.score for g in curr_game.children])\<close>; a score that is \<open>None\<close> is a TypeError.\<close>

definition children_max :: "GameTree list \<Rightarrow> nat list \<Rightarrow> error + int" where
  "children_max store cs =
     (case map_result (\<lambda>g. case score (store ! g) of None \<Rightarrow> Inl TypeError
                                                     | Some v \<Rightarrow> Inr (- 1 * v)) cs of
        Inl e \<Rightarrow> Inl e
      | Inr vs \<Rightarrow> py_max vs)"

text \<open>One run of the body of the \<open>while\<close> loop of \<open>iterative_helper\<close>; the top of the stack is its last element.\<close>

definition loop_body :: "GameTree list \<Rightarrow> nat list \<Rightarrow> error + (GameTree list \<times> nat list)" where
  "loop_body store s =
     (case py_get s (int (length s) - 1) of
        Inl e \<Rightarrow> Inl e
      | Inr curr_game \<Rightarrow>
          (let node = store ! curr_game
           in if is_over (tree_game node) (current_state (tree_game node)) then
                (let v = (if is_winner (tree_game node) ''p2'' \<or> is_winner (tree_game node) ''p1''
                          then - 1 else 0)
                 in Inr (store[curr_game := node\<lparr>score := Some v\<rparr>], butlast s))
              else if children node = [] then
                (let moves = get_possible_moves (current_state (tree_game node))
                 in expand_loop store (s @ [curr_game]) curr_game moves)
              else
                (case children_max store (children node) of
                   Inl e \<Rightarrow> Inl e
                 | Inr v \<Rightarrow> Inr (store[curr_game := node\<lparr>score := Some v\<rparr>], butlast s))))"

text \<open>
  \<open>while gt.score is None\<close>.  The loop may run forever, so the result is an option:
  \<open>None\<close> is "does not return".
\<close>

partial_function (option) iterative_loop :: "GameTree list \<Rightarrow> nat list \<Rightarrow> nat \<Rightarrow> (error + int) option" where
  "iterative_loop store s gt =
     (case score (store ! gt) of
        Some v \<Rightarrow> Some (Inr v)
      | None \<Rightarrow>
          (case loop_body store s of
             Inl e \<Rightarrow> Some (Inl e)
           | Inr (store', s') \<Rightarrow> iterative_loop store' s' gt))"

declare iterative_loop.simps [code]

definition iterative_helper :: "Stonehenge \<Rightarrow> (error + int) option" where
  "iterative_helper g = iterative_loop [GameTree_init g] [0] 0"

text \<open>The loop of \<open>iterative_minimax\<close>; it does not return if a call of the helper does not.\<close>

fun iterative_moves_scores :: "Stonehenge \<Rightarrow> string list \<Rightarrow> (error + int list) option" where
  "iterative_moves_scores game [] = Some (Inr [])"
| "iterative_moves_scores game (move # rest) =
     (case game_after game move of
        Inl e \<Rightarrow> Some (Inl e)
      | Inr g \<Rightarrow>
          (case iterative_helper g of
             None \<Rightarrow> None
           | Some (Inl e) \<Rightarrow> Some (Inl e)
           | Some (Inr v) \<Rightarrow>
               (case iterative_moves_scores game rest of
                  None \<Rightarrow> None
                | Some (Inl e) \<Rightarrow> Some (Inl e)
                | Some (Inr vs) \<Rightarrow> Some (Inr (- 1 * v # vs)))))"

definition iterative_minimax :: "Stonehenge \<Rightarrow> (error + string) option" where
  "iterative_minimax game =
     (let moves = get_possible_moves (current_state game)
      in case iterative_moves_scores game moves of
           None \<Rightarrow> None
         | Some (Inl e) \<Rightarrow> Some (Inl e)
         | Some (Inr moves_scores) \<Rightarrow> Some (pick_move moves moves_scores))"

section \<open>Plays and the states they reach\<close>

text \<open>A sequence of \<open>make_move\<close> calls, each on the state the previous one returned.\<close>

fun play :: "StonehengeState \<Rightarrow> string list \<Rightarrow> error + StonehengeState" where
  "play s [] = Inr s"
| "play s (m # ms) = (case make_move s m of Inl e \<Rightarrow> Inl e | Inr s' \<Rightarrow> play s' ms)"

text \<open>
  The states the class can build: the constructor gives one for any arguments, and
  \<open>make_move\<close> gives one from another.
\<close>

inductive constructed :: "StonehengeState \<Rightarrow> bool" where
  constructed_init: "constructed (StonehengeState_init is_p1 b p1 p2 hl rl ll)"
| constructed_move: "constructed s \<Longrightarrow> make_move s m = Inr s' \<Longrightarrow> constructed s'"

text \<open>
  The states of a game: the state \<open>Stonehenge.__init__\<close> builds for a board length of
  at least 1, and the states that moves lead to from it.
\<close>

inductive reachable :: "StonehengeState \<Rightarrow> bool" where
  reachable_init: "1 \<le> b \<Longrightarrow> Stonehenge_init is_p1 b = Inr g \<Longrightarrow> reachable (current_state g)"
| reachable_move: "reachable s \<Longrightarrow> make_move s m = Inr s' \<Longrightarrow> reachable s'"

text \<open>The games of board length 1 and 2 with player 1 to move, written out.\<close>

definition lines1_h :: "Leyline list" where
  "lines1_h = [\<lparr>ley_value = IntVal 1, letters = [''A'', ''B'']\<rparr>,
               \<lparr>ley_value = IntVal 2, letters = [''C'']\<rparr>]"

definition lines1_r :: "Leyline list" where
  "lines1_r = [\<lparr>ley_value = IntVal 1, letters = [''A'']\<rparr>,
               \<lparr>ley_value = IntVal 2, letters = [''B'', ''C'']\<rparr>]"

definition lines1_l :: "Leyline list" where
  "lines1_l = [\<lparr>ley_value = IntVal 1, letters = [''B'']\<rparr>,
               \<lparr>ley_value = IntVal 2, letters = [''C'', ''A'']\<rparr>]"

definition state1 :: StonehengeState where
  "state1 = \<lparr>p1_turn = True, b_length = 1, p1_score = 0, p2_score = 0,
             h_lines = lines1_h, r_lines = lines1_r, l_lines = lines1_l,
             possible_moves = [''A'', ''B'', ''C'']\<rparr>"

definition game1 :: Stonehenge where
  "game1 = \<lparr>hoz_lines = lines1_h, right_lines = lines1_r, left_lines = lines1_l,
            current_state = state1\<rparr>"

definition lines2_h :: "Leyline list" where
  "lines2_h = [\<lparr>ley_value = IntVal 1, letters = [''A'', ''B'']\<rparr>,
               \<lparr>ley_value = IntVal 2, letters = [''C'', ''D'', ''E'']\<rparr>,
               \<lparr>ley_value = IntVal 3, letters = [''F'', ''G'']\<rparr>]"

definition lines2_r :: "Leyline list" where
  "lines2_r = [\<lparr>ley_value = IntVal 1, letters = [''A'', ''C'']\<rparr>,
               \<lparr>ley_value = IntVal 2, letters = [''B'', ''D'', ''F'']\<rparr>,
               \<lparr>ley_value = IntVal 3, letters = [''E'', ''G'']\<rparr>]"

definition lines2_l :: "Leyline list" where
  "lines2_l = [\<lparr>ley_value = IntVal 1, letters = [''E'', ''B'']\<rparr>,
               \<lparr>ley_value = IntVal 2, letters = [''G'', ''D'', ''A'']\<rparr>,
               \<lparr>ley_value = IntVal 3, letters = [''F'', ''C'']\<rparr>]"

definition state2 :: StonehengeState where
  "state2 = \<lparr>p1_turn = True, b_length = 2, p1_score = 0, p2_score = 0,
             h_lines = lines2_h, r_lines = lines2_r, l_lines = lines2_l,
             possible_moves = [''A'', ''B'', ''C'', ''D'', ''E'', ''F'', ''G'']\<rparr>"

definition game2 :: Stonehenge where
  "game2 = \<lparr>hoz_lines = lines2_h, right_lines = lines2_r, left_lines = lines2_l,
            current_state = state2\<rparr>"

lemma Stonehenge_init_1: "Stonehenge_init True 1 = Inr game1"
  by code_simp

lemma Stonehenge_init_2: "Stonehenge_init True 2 = Inr game2"
  by code_simp

lemma reachable_state1: "reachable state1"
  using reachable_init [of 1 True game1] Stonehenge_init_1 by (simp add: game1_def)

lemma reachable_state2: "reachable state2"
  using reachable_init [of 2 True game2] Stonehenge_init_2 by (simp add: game2_def)

section \<open>What a move leaves alone\<close>

lemma ceil_half_ceiling: "ceil_half k = \<lceil>real_of_int k / 2\<rceil>"
proof -
  have "\<lceil>real_of_int k / 2\<rceil> = - \<lfloor>real_of_int (- k) / real_of_int 2\<rfloor>"
    by (simp add: ceiling_def)
  also have "\<dots> = - ((- k) div 2)"
    by (simp only: floor_divide_of_int_eq)
  also have "\<dots> = (k + 1) div 2" by linarith
  finally show ?thesis by (simp add: ceil_half_def)
qed

lemma change_leyline_frame:
  "change_leyline self ley = (self', ley') \<Longrightarrow>
     p1_turn self' = p1_turn self \<and> b_length self' = b_length self \<and>
     h_lines self' = h_lines self \<and> r_lines self' = r_lines self \<and>
     l_lines self' = l_lines self \<and> possible_moves self' = possible_moves self \<and>
     letters ley' = letters ley"
  by (auto simp: change_leyline_def Let_def split: if_splits)

lemma change_leyline_captured:
  "change_leyline self ley = (self', ley') \<Longrightarrow> \<not> is_int (ley_value ley) \<Longrightarrow>
     ley' = ley \<and> self' = self"
  by (auto simp: change_leyline_def Let_def split: if_splits)

lemma change_letter_frame:
  "change_letter self move lines = (self', lines') \<Longrightarrow>
     p1_turn self' = p1_turn self \<and> b_length self' = b_length self \<and>
     h_lines self' = h_lines self \<and> r_lines self' = r_lines self \<and>
     l_lines self' = l_lines self \<and> possible_moves self' = possible_moves self \<and>
     length lines' = length lines"
proof (induction lines arbitrary: self' lines')
  case Nil
  then show ?case by simp
next
  case (Cons ley rest)
  show ?case
  proof (cases "find_letter move (letters ley)")
    case None
    with Cons.prems obtain r' where "change_letter self move rest = (self', r')" "lines' = ley # r'"
      by (auto split: prod.splits)
    with Cons.IH show ?thesis by auto
  next
    case (Some i)
    with Cons.prems show ?thesis
      by (auto simp: Let_def split: prod.splits dest: change_leyline_frame)
  qed
qed

lemma change_letter_captured:
  "change_letter self move lines = (self', lines') \<Longrightarrow> i < length lines \<Longrightarrow>
     ley_value (lines ! i) = StrVal t \<Longrightarrow> ley_value (lines' ! i) = StrVal t"
proof (induction lines arbitrary: self' lines' i)
  case Nil
  then show ?case by simp
next
  case (Cons ley rest)
  show ?case
  proof (cases "find_letter move (letters ley)")
    case None
    with Cons.prems obtain r' where r': "change_letter self move rest = (self', r')" "lines' = ley # r'"
      by (auto split: prod.splits)
    show ?thesis
    proof (cases i)
      case 0
      with Cons.prems r' show ?thesis by simp
    next
      case (Suc j)
      with Cons.prems r' Cons.IH [OF r'(1), of j] show ?thesis by simp
    qed
  next
    case (Some k)
    let ?ley1 = "ley\<lparr>letters := (letters ley)[k := (if p1_turn self then ''1'' else ''2'')]\<rparr>"
    from Some obtain ley' where l': "change_leyline self ?ley1 = (self', ley')" "lines' = ley' # rest"
      using Cons.prems(1) by (auto simp: Let_def split: prod.splits)
    show ?thesis
    proof (cases i)
      case 0
      with Cons.prems have "\<not> is_int (ley_value ?ley1)" by simp
      from change_leyline_captured [OF l'(1) this] 0 Cons.prems l'(2) show ?thesis by simp
    next
      case (Suc j)
      with Cons.prems l' show ?thesis by simp
    qed
  qed
qed

lemma make_move_cases:
  assumes "make_move s m = Inr s'"
  obtains s1 hl s2 rl s3 ll where
    "change_letter (StonehengeState_init (p1_turn s) (b_length s) (p1_score s) (p2_score s)
       (h_lines s) (r_lines s) (l_lines s)) m (h_lines s) = (s1, hl)"
    "change_letter (s1\<lparr>h_lines := hl\<rparr>) m (r_lines s) = (s2, rl)"
    "change_letter (s2\<lparr>r_lines := rl\<rparr>) m (l_lines s) = (s3, ll)"
    "m \<in> set (possible_moves s)"
    "s' = \<lparr>p1_turn = \<not> p1_turn s, b_length = b_length s, p1_score = p1_score s3,
           p2_score = p2_score s3, h_lines = hl, r_lines = rl, l_lines = ll,
           possible_moves = (if win_threshold s \<le> p1_score s3 \<or> win_threshold s \<le> p2_score s3
                             then [] else remove1 m (possible_moves s))\<rparr>"
proof -
  let ?s0 = "StonehengeState_init (p1_turn s) (b_length s) (p1_score s) (p2_score s)
       (h_lines s) (r_lines s) (l_lines s)"
  obtain s1 hl where 1: "change_letter ?s0 m (h_lines s) = (s1, hl)" by (cases "change_letter ?s0 m (h_lines s)")
  obtain s2 rl where 2: "change_letter (s1\<lparr>h_lines := hl\<rparr>) m (r_lines s) = (s2, rl)"
    by (cases "change_letter (s1\<lparr>h_lines := hl\<rparr>) m (r_lines s)")
  obtain s3 ll where 3: "change_letter (s2\<lparr>r_lines := rl\<rparr>) m (l_lines s) = (s3, ll)"
    by (cases "change_letter (s2\<lparr>r_lines := rl\<rparr>) m (l_lines s)")
  have f0: "h_lines ?s0 = h_lines s" "r_lines ?s0 = r_lines s" "l_lines ?s0 = l_lines s"
    "p1_turn ?s0 = p1_turn s" "b_length ?s0 = b_length s"
    by (simp_all add: StonehengeState_init_def)
  note f1 = change_letter_frame [OF 1]
  note f2 = change_letter_frame [OF 2]
  note f3 = change_letter_frame [OF 3]
  have m: "m \<in> set (possible_moves s)" using assms by (rule make_move_in_moves)
  have "make_move s m = Inr (let ss = s3\<lparr>l_lines := ll, possible_moves := remove1 m (possible_moves s), p1_turn := \<not> p1_turn s3\<rparr>
     in if p1_score ss \<ge> win_threshold ss \<or> p2_score ss \<ge> win_threshold ss then ss\<lparr>possible_moves := []\<rparr> else ss)"
    unfolding make_move_def using 1 2 3 f0 f1 f2 f3 m
    by (simp add: Let_def py_remove_def get_possible_moves_def)
  with assms have s': "s' = (let ss = s3\<lparr>l_lines := ll, possible_moves := remove1 m (possible_moves s), p1_turn := \<not> p1_turn s3\<rparr>
     in if p1_score ss \<ge> win_threshold ss \<or> p2_score ss \<ge> win_threshold ss then ss\<lparr>possible_moves := []\<rparr> else ss)"
    by simp
  have "s' = \<lparr>p1_turn = \<not> p1_turn s, b_length = b_length s, p1_score = p1_score s3,
           p2_score = p2_score s3, h_lines = hl, r_lines = rl, l_lines = ll,
           possible_moves = (if win_threshold s \<le> p1_score s3 \<or> win_threshold s \<le> p2_score s3
                             then [] else remove1 m (possible_moves s))\<rparr>"
    unfolding s' using f0 f1 f2 f3 by (auto simp: Let_def win_threshold_def)
  with 1 2 3 m that show ?thesis by blast
qed

lemma make_move_succeeds:
  "m \<in> set (possible_moves s) \<Longrightarrow> \<exists>s'. make_move s m = Inr s'"
  by (simp add: make_move_def py_remove_def get_possible_moves_def Let_def split: prod.splits)

lemma make_move_fails:
  "m \<notin> set (possible_moves s) \<Longrightarrow> make_move s m = Inl ValueError"
  by (simp add: make_move_def py_remove_def get_possible_moves_def Let_def split: prod.splits)

lemma make_move_b_length: "make_move s m = Inr s' \<Longrightarrow> b_length s' = b_length s"
  by (erule make_move_cases) simp

lemma make_move_over_empty:
  "make_move s m = Inr s' \<Longrightarrow>
     possible_moves s' = (if win_threshold s' \<le> p1_score s' \<or> win_threshold s' \<le> p2_score s'
                          then [] else remove1 m (possible_moves s))"
  by (erule make_move_cases) (simp add: win_threshold_def)

lemma make_move_captured:
  assumes "make_move s m = Inr s'"
  shows "length (h_lines s') = length (h_lines s) \<and> length (r_lines s') = length (r_lines s) \<and>
         length (l_lines s') = length (l_lines s)"
    and "i < length (h_lines s) \<Longrightarrow> ley_value (h_lines s ! i) = StrVal t \<Longrightarrow> ley_value (h_lines s' ! i) = StrVal t"
    and "i < length (r_lines s) \<Longrightarrow> ley_value (r_lines s ! i) = StrVal t \<Longrightarrow> ley_value (r_lines s' ! i) = StrVal t"
    and "i < length (l_lines s) \<Longrightarrow> ley_value (l_lines s ! i) = StrVal t \<Longrightarrow> ley_value (l_lines s' ! i) = StrVal t"
proof -
  from assms obtain s1 hl s2 rl s3 ll where
    1: "change_letter (StonehengeState_init (p1_turn s) (b_length s) (p1_score s) (p2_score s)
       (h_lines s) (r_lines s) (l_lines s)) m (h_lines s) = (s1, hl)" and
    2: "change_letter (s1\<lparr>h_lines := hl\<rparr>) m (r_lines s) = (s2, rl)" and
    3: "change_letter (s2\<lparr>r_lines := rl\<rparr>) m (l_lines s) = (s3, ll)" and
    s': "h_lines s' = hl" "r_lines s' = rl" "l_lines s' = ll"
    by (rule make_move_cases) simp
  show "length (h_lines s') = length (h_lines s) \<and> length (r_lines s') = length (r_lines s) \<and>
         length (l_lines s') = length (l_lines s)"
    using change_letter_frame [OF 1] change_letter_frame [OF 2] change_letter_frame [OF 3] s'
    by simp
  show "i < length (h_lines s) \<Longrightarrow> ley_value (h_lines s ! i) = StrVal t \<Longrightarrow> ley_value (h_lines s' ! i) = StrVal t"
    using change_letter_captured [OF 1] s' by simp
  show "i < length (r_lines s) \<Longrightarrow> ley_value (r_lines s ! i) = StrVal t \<Longrightarrow> ley_value (r_lines s' ! i) = StrVal t"
    using change_letter_captured [OF 2] s' by simp
  show "i < length (l_lines s) \<Longrightarrow> ley_value (l_lines s ! i) = StrVal t \<Longrightarrow> ley_value (l_lines s' ! i) = StrVal t"
    using change_letter_captured [OF 3] s' by simp
qed

text \<open>
  Claim C4 (capture permanence).  Along any sequence of \<open>make_move\<close> calls, from any
  state, each family keeps its number of leylines, and a leyline whose value is a string
  (a player's tag) keeps that value: a captured leyline is never changed again.
\<close>

theorem capture_permanent:
  assumes "play s ms = Inr s'"
  shows "length (h_lines s') = length (h_lines s) \<and> length (r_lines s') = length (r_lines s) \<and>
         length (l_lines s') = length (l_lines s) \<and>
         (\<forall>i t. i < length (h_lines s) \<and> ley_value (h_lines s ! i) = StrVal t
                  \<longrightarrow> ley_value (h_lines s' ! i) = StrVal t) \<and>
         (\<forall>i t. i < length (r_lines s) \<and> ley_value (r_lines s ! i) = StrVal t
                  \<longrightarrow> ley_value (r_lines s' ! i) = StrVal t) \<and>
         (\<forall>i t. i < length (l_lines s) \<and> ley_value (l_lines s ! i) = StrVal t
                  \<longrightarrow> ley_value (l_lines s' ! i) = StrVal t)"
  using assms
proof (induction ms arbitrary: s)
  case Nil
  then show ?case by simp
next
  case (Cons m ms)
  then obtain s1 where s1: "make_move s m = Inr s1" and rest: "play s1 ms = Inr s'"
    by (auto split: sum.splits)
  note step = make_move_captured [OF s1]
  note IH = Cons.IH [OF rest]
  show ?case
    using step(1) IH step(2) step(3) step(4) by auto
qed

theorem capture_permanent_witness:
  "\<exists>s s'. make_move state2 ''A'' = Inr s \<and> play s [''B'', ''C''] = Inr s' \<and>
      ley_value (h_lines s ! 0) = StrVal ''1'' \<and> ley_value (h_lines s' ! 0) = StrVal ''1'' \<and>
      ley_value (r_lines s ! 0) = StrVal ''1'' \<and> ley_value (r_lines s' ! 0) = StrVal ''1''"
proof -
  have a: "\<not> isl (make_move state2 ''A'')" by code_simp
  then obtain s where s: "make_move state2 ''A'' = Inr s" by (cases "make_move state2 ''A''") auto
  have "\<not> isl (play (projr (make_move state2 ''A'')) [''B'', ''C''])" by code_simp
  with s obtain s' where s': "play s [''B'', ''C''] = Inr s'"
    by (cases "play s [''B'', ''C'']") auto
  have v: "ley_value (h_lines (projr (make_move state2 ''A'')) ! 0) = StrVal ''1''"
      "ley_value (r_lines (projr (make_move state2 ''A'')) ! 0) = StrVal ''1''"
      "0 < length (h_lines (projr (make_move state2 ''A'')))"
      "0 < length (r_lines (projr (make_move state2 ''A'')))"
    by code_simp+
  from capture_permanent [OF s'] v s s' show ?thesis by auto
qed

section \<open>Terminal states\<close>

lemma is_over_iff:
  "is_over g s \<longleftrightarrow> win_threshold s \<le> p1_score s \<or> win_threshold s \<le> p2_score s"
  by (simp add: is_over_def win_threshold_def Let_def)

lemma is_winner_iff:
  "is_winner g ''p1'' \<longleftrightarrow> win_threshold (current_state g) \<le> p1_score (current_state g)"
  "is_winner g ''p2'' \<longleftrightarrow> win_threshold (current_state g) \<le> p2_score (current_state g)"
  by (simp_all add: is_winner_def win_threshold_def Let_def)

lemma recursive_helper_over:
  "is_over g (current_state g) \<Longrightarrow> recursive_helper g = Inr (- 1)"
  by (subst recursive_helper.simps) (auto simp: is_over_iff is_winner_iff)

lemma iterative_loop_scored:
  "score (store ! gt) = Some v \<Longrightarrow> iterative_loop store s gt = Some (Inr v)"
  by (subst iterative_loop.simps) simp

lemma iterative_loop_step:
  "score (store ! gt) = None \<Longrightarrow> loop_body store s = Inr (store', s') \<Longrightarrow>
     iterative_loop store s gt = iterative_loop store' s' gt"
  by (subst iterative_loop.simps) simp

lemma py_get_last: "py_get (s @ [x]) (int (length (s @ [x])) - 1) = Inr x"
  by (simp add: py_get_def)

lemma loop_body_over:
  assumes "is_over (tree_game (store ! n)) (current_state (tree_game (store ! n)))"
  shows "loop_body store (s @ [n]) = Inr (store[n := (store ! n)\<lparr>score := Some (- 1)\<rparr>], s)"
  using assms unfolding loop_body_def py_get_last
  by (auto simp: Let_def is_over_iff is_winner_iff)

lemma iterative_helper_over:
  assumes "is_over g (current_state g)"
  shows "iterative_helper g = Some (Inr (- 1))"
proof -
  let ?store = "[GameTree_init g]"
  have "loop_body ?store ([] @ [0]) = Inr (?store[0 := (?store ! 0)\<lparr>score := Some (- 1)\<rparr>], [])"
    by (rule loop_body_over) (simp add: GameTree_init_def assms)
  then have "iterative_loop ?store [0] 0 = iterative_loop (?store[0 := (?store ! 0)\<lparr>score := Some (- 1)\<rparr>]) [] 0"
    by (intro iterative_loop_step) (simp_all add: GameTree_init_def)
  also have "\<dots> = Some (Inr (- 1))"
    by (rule iterative_loop_scored) simp
  finally show ?thesis by (simp add: iterative_helper_def)
qed

text \<open>
  Claim C10.  When \<open>is_over\<close> holds of a game's current state, \<open>is_winner\<close> holds for
  \<open>'p1'\<close> or for \<open>'p2'\<close>; so both helpers score a terminal game \<open>-1\<close>, never \<open>0\<close>, and
  the loop body of \<open>iterative_helper\<close> gives every terminal node on top of its stack the
  score \<open>-1\<close>.
\<close>

theorem over_has_winner:
  assumes "is_over g (current_state g)"
  shows "(is_winner g ''p1'' \<or> is_winner g ''p2'') \<and>
         recursive_helper g = Inr (- 1) \<and> iterative_helper g = Some (Inr (- 1)) \<and>
         (tree_game (store ! n) = g \<longrightarrow>
            loop_body store (s @ [n]) = Inr (store[n := (store ! n)\<lparr>score := Some (- 1)\<rparr>], s))"
  using assms recursive_helper_over [OF assms] iterative_helper_over [OF assms]
    loop_body_over [of store n s]
  by (auto simp: is_over_iff is_winner_iff)

theorem over_has_winner_witness:
  "\<exists>g. game_after game1 ''A'' = Inr g \<and> is_over g (current_state g) \<and>
       is_winner g ''p1'' \<and> \<not> is_winner g ''p2'' \<and>
       recursive_helper g = Inr (- 1) \<and> iterative_helper g = Some (Inr (- 1)) \<and>
       loop_body [GameTree_init game1, GameTree_init g] [0, 0, 1] =
         Inr ([GameTree_init game1, (GameTree_init g)\<lparr>score := Some (- 1)\<rparr>], [0, 0])"
proof -
  have "\<not> isl (game_after game1 ''A'')" by code_simp
  then obtain g where g: "game_after game1 ''A'' = Inr g" by (cases "game_after game1 ''A''") auto
  have "is_over (projr (game_after game1 ''A'')) (current_state (projr (game_after game1 ''A'')))"
    and "\<not> is_winner (projr (game_after game1 ''A'')) ''p2''"
    by code_simp+
  with g have o: "is_over g (current_state g)" and "\<not> is_winner g ''p2''" by simp_all
  moreover have "tree_game ([GameTree_init game1, GameTree_init g] ! 1) = g"
    by (simp add: GameTree_init_def)
  moreover note over_has_winner [OF o, of "[GameTree_init game1, GameTree_init g]" 1 "[0, 0]"] g
  ultimately show ?thesis by simp
qed

lemma distinct_ALPHA: "distinct ALPHA"
  by code_simp

lemma constructed_distinct: "constructed s \<Longrightarrow> distinct (possible_moves s)"
proof (induction rule: constructed.induct)
  case (constructed_init is_p1 b p1 p2 hl rl ll)
  show ?case
    by (simp add: StonehengeState_init_def py_slice_to_def distinct_ALPHA)
next
  case (constructed_move s m s')
  from make_move_moves [OF constructed_move.hyps(2)] constructed_move.IH
  show ?case by auto
qed

text \<open>
  Claim C9.  For a state built by the constructor and \<open>make_move\<close>, and a move of its
  \<open>possible_moves\<close>: \<open>make_move\<close> returns a state, and the same move on that state
  raises ValueError (no state is returned).
\<close>

theorem same_move_twice_rejected:
  assumes "constructed s" and "m \<in> set (possible_moves s)"
  shows "\<exists>s'. make_move s m = Inr s' \<and> make_move s' m = Inl ValueError"
proof -
  from make_move_succeeds [OF assms(2)] obtain s' where s': "make_move s m = Inr s'" ..
  from assms(1) have "distinct (possible_moves s)" by (rule constructed_distinct)
  with make_move_moves [OF s'] have "m \<notin> set (possible_moves s')" by auto
  then have "make_move s' m = Inl ValueError" by (rule make_move_fails)
  with s' show ?thesis by blast
qed

lemma constructed_state2: "constructed state2"
  using constructed_init [of True 2 0 0 lines2_h lines2_r lines2_l]
  by (simp add: StonehengeState_init_def state2_def py_slice_to_def ALPHA_def)

theorem same_move_twice_rejected_witness:
  "constructed state2 \<and> ''D'' \<in> set (possible_moves state2) \<and>
   (\<exists>s'. make_move state2 ''D'' = Inr s' \<and> make_move s' ''D'' = Inl ValueError)"
proof -
  have m: "''D'' \<in> set (possible_moves state2)" by (simp add: state2_def)
  from same_move_twice_rejected [OF constructed_state2 m] constructed_state2 m
  show ?thesis by simp
qed


lemma Stonehenge_init_state:
  "Stonehenge_init is_p1 b = Inr g \<Longrightarrow>
     current_state g = StonehengeState_init is_p1 b 0 0 (hoz_lines g) (right_lines g) (left_lines g)"
  by (auto simp: Stonehenge_init_def split: sum.splits)

lemma reachable_over_no_moves:
  "reachable s \<Longrightarrow> is_over g s \<Longrightarrow> possible_moves s = []"
proof (induction rule: reachable.induct)
  case (reachable_init b is_p1 g0)
  from Stonehenge_init_state [OF reachable_init.hyps(2)]
  have "p1_score (current_state g0) = 0" "p2_score (current_state g0) = 0"
    "b_length (current_state g0) = b"
    by (simp_all add: StonehengeState_init_def)
  with reachable_init.hyps(1) reachable_init.prems show ?case
    by (simp add: is_over_iff win_threshold_def ceil_half_def)
next
  case (reachable_move s m s')
  from make_move_over_empty [OF reachable_move.hyps(2)] reachable_move.prems
  show ?case by (simp add: is_over_iff)
qed

subsection \<open>The threshold in the arithmetic of doubles\<close>

text \<open>
  \<open>math.ceil(k / 2)\<close> divides in floating point.  For \<open>\<bar>k\<bar> \<le> 2 ^ 53\<close> the double is the
  exact quotient and the result is \<open>ceil_half k\<close>, the value the model takes.  Beyond
  that the quotient is rounded: at board length \<open>10 ^ 17\<close> the code's threshold is
  \<open>150000000000000000\<close>, two below the exact ceiling.
\<close>

lemma bit_length_le: "n < 2 ^ w \<Longrightarrow> bit_length n \<le> w"
proof (induction w arbitrary: n)
  case 0
  then show ?case by (simp add: bit_length.simps)
next
  case (Suc w)
  show ?case
  proof (cases "n = 0")
    case True
    then show ?thesis by (simp add: bit_length.simps)
  next
    case False
    from Suc.prems have "n div 2 < 2 ^ w" by simp
    from Suc.IH [OF this] False show ?thesis by (subst bit_length.simps) simp
  qed
qed

lemma round_half_even_dvd: "2 ^ s dvd n \<Longrightarrow> round_half_even n s * 2 ^ s = n"
  by (simp add: round_half_even_def Let_def mod_eq_0_iff_dvd [symmetric])

lemma round_half_even_exact:
  assumes "n \<le> 2 ^ 53"
  shows "round_half_even n (bit_length n - 53) * 2 ^ (bit_length n - 53) = n"
proof (cases "n < 2 ^ 53")
  case True
  then have "bit_length n - 53 = 0" using bit_length_le [of n 53] by simp
  then show ?thesis using round_half_even_dvd [of 0 n] by simp
next
  case False
  with assms have n: "n = 2 ^ 53" by simp
  have "n < 2 ^ 54" unfolding n by simp
  then have "bit_length n - 53 \<le> 1" using bit_length_le [of n 54] by simp
  then have "2 ^ (bit_length n - 53) dvd (2::nat) ^ 53"
    by (intro le_imp_power_dvd) simp
  then show ?thesis unfolding n [symmetric] by (simp add: round_half_even_dvd n)
qed


lemma truediv_2_exact:
  assumes "\<bar>k\<bar> \<le> 2 ^ 53"
  shows "truediv_2 k = Inr (real_of_int k / 2)"
proof -
  let ?n = "nat \<bar>k\<bar>"
  from assms have n: "?n \<le> 2 ^ 53" by simp
  have m: "round_half_even ?n (bit_length ?n - 53) * 2 ^ (bit_length ?n - 53) = ?n"
    by (rule round_half_even_exact [OF n])
  have "(2::nat) ^ 53 < 2 ^ 1025" by (rule power_strict_increasing) simp_all
  with n have "?n < 2 ^ 1025" by (rule le_less_trans)
  then have small: "\<not> (2::nat) ^ 1025 \<le> ?n" by (simp only: not_le)
  have sg: "sgn k * int ?n = k" by (simp add: mult_sgn_abs)
  show ?thesis unfolding truediv_2_def Let_def m by (simp only: small if_False sg)
qed

lemma float_ceil_half_exact:
  "\<bar>k\<bar> \<le> 2 ^ 53 \<Longrightarrow> float_ceil_half k = Inr (ceil_half k)"
  by (simp add: float_ceil_half_def truediv_2_exact ceil_half_ceiling)


lemma bit_length_large: "bit_length 300000000000000003 = 59"
  by (simp add: bit_length.simps)

lemma round_large: "round_half_even 300000000000000003 6 = 4687500000000000"
  by (simp add: round_half_even_def Let_def)


lemma float_ceil_half_large:
  "float_ceil_half (3 * (10 ^ 17 + 1)) = Inr 150000000000000000 \<and>
   ceil_half (3 * (10 ^ 17 + 1)) = 150000000000000002"
proof -
  have k: "3 * (10 ^ 17 + 1) = (300000000000000003 :: int)" by simp
  have n: "nat \<bar>300000000000000003\<bar> = (300000000000000003 :: nat)" by simp
  have s: "bit_length 300000000000000003 - 53 = 6" by (simp add: bit_length_large)
  have m: "round_half_even 300000000000000003 6 * 2 ^ 6 = 300000000000000000"
    by (simp add: round_large)
  have "(300000000000000000::nat) < 2 ^ 59" by simp
  also have "(2::nat) ^ 59 < 2 ^ 1025" by (rule power_strict_increasing) simp_all
  finally have small: "\<not> (2::nat) ^ 1025 \<le> 300000000000000000" by (simp only: not_le)
  have "truediv_2 300000000000000003 = Inr (real_of_int (sgn 300000000000000003 * int 300000000000000000) / 2)"
    unfolding truediv_2_def Let_def n s m by (simp only: small if_False)
  also have "\<dots> = Inr 150000000000000000" by simp
  finally show ?thesis unfolding k by (simp add: float_ceil_half_def ceil_half_def)
qed

subsection \<open>The boards of a game\<close>

text \<open>
  \<open>generate_hoz\<close> names the cells by the 26 letters of \<open>ALPHA\<close>; a board of length 6
  has 33 cells, so the constructor of the game raises IndexError for a length of 6 or
  more, and a reachable state has a board length from 1 to 5.
\<close>

lemma generate_hoz_large:
  assumes "6 \<le> n"
  shows "generate_hoz n = Inl IndexError"
proof -
  have u: "[1..n + 1] = 1 # 2 # 3 # 4 # 5 # 6 # [7..n + 1]"
    using assms by (simp add: upto_rec1)
  show ?thesis
    unfolding generate_hoz_def u using assms
    by (simp add: ALPHA_def eval_nat_numeral)
qed

lemma Stonehenge_init_large: "6 \<le> b \<Longrightarrow> Stonehenge_init is_p1 b = Inl IndexError"
  by (simp add: Stonehenge_init_def generate_hoz_large)

lemma reachable_b_length: "reachable s \<Longrightarrow> 1 \<le> b_length s \<and> b_length s \<le> 5"
proof (induction rule: reachable.induct)
  case (reachable_init b is_p1 g)
  have "b \<le> 5"
  proof (rule ccontr)
    assume "\<not> b \<le> 5"
    then have "6 \<le> b" by simp
    from Stonehenge_init_large [OF this, of is_p1] reachable_init.hyps(2) show False by simp
  qed
  moreover from Stonehenge_init_state [OF reachable_init.hyps(2)]
  have "b_length (current_state g) = b" by (simp add: StonehengeState_init_def)
  ultimately show ?case using reachable_init.hyps(1) by simp
next
  case (reachable_move s m s')
  from make_move_b_length [OF reachable_move.hyps(2)] reachable_move.IH show ?case by simp
qed

lemma is_over_ceiling:
  "is_over g t \<longleftrightarrow>
            \<lceil>real_of_int (3 * (b_length t + 1)) / 2\<rceil> \<le> p1_score t \<or>
            \<lceil>real_of_int (3 * (b_length t + 1)) / 2\<rceil> \<le> p2_score t"
  unfolding is_over_iff win_threshold_def ceil_half_ceiling ..

text \<open>
  Claim C5 (terminal detection).  For a state whose board length \<open>b\<close> has
  \<open>\<bar>3 * (b + 1)\<bar> \<le> 2 ^ 53\<close>, the range on which the code's floating-point quotient is
  exact, \<open>is_over\<close> holds exactly when one of its scores is at least
  \<open>ceil(3 * (b + 1) / 2)\<close>.  A reachable state has a board length from 1 to 5, inside
  that range.  A reachable state from which a move is made is not over and the move
  keeps the board length, so a state becomes terminal at the move that brings a score
  to the threshold; that move leaves no possible moves, any other move leaves the
  previous ones but the move made.
\<close>

theorem terminal_detection:
  assumes "reachable s" and "make_move s m = Inr s'"
  shows "(\<forall>t. \<bar>3 * (b_length t + 1)\<bar> \<le> 2 ^ 53 \<longrightarrow>
            (is_over g t \<longleftrightarrow>
               \<lceil>real_of_int (3 * (b_length t + 1)) / 2\<rceil> \<le> p1_score t \<or>
               \<lceil>real_of_int (3 * (b_length t + 1)) / 2\<rceil> \<le> p2_score t)) \<and>
         1 \<le> b_length s \<and> b_length s \<le> 5 \<and>
         \<not> is_over g s \<and> b_length s' = b_length s \<and>
         (is_over g s' \<longrightarrow> possible_moves s' = []) \<and>
         (\<not> is_over g s' \<longrightarrow> possible_moves s' = remove1 m (possible_moves s))"
proof (intro conjI allI impI)
  fix t
  show "is_over g t \<longleftrightarrow>
            \<lceil>real_of_int (3 * (b_length t + 1)) / 2\<rceil> \<le> p1_score t \<or>
            \<lceil>real_of_int (3 * (b_length t + 1)) / 2\<rceil> \<le> p2_score t"
    by (rule is_over_ceiling)
next
  from reachable_b_length [OF assms(1)] show "1 \<le> b_length s" ..
next
  from reachable_b_length [OF assms(1)] show "b_length s \<le> 5" ..
next
  show "\<not> is_over g s"
  proof
    assume "is_over g s"
    with assms(1) have "possible_moves s = []" by (rule reachable_over_no_moves)
    with make_move_in_moves [OF assms(2)] show False by simp
  qed
next
  show "b_length s' = b_length s" by (rule make_move_b_length [OF assms(2)])
next
  assume "is_over g s'"
  with make_move_over_empty [OF assms(2)]
  show "possible_moves s' = []"
    by (simp add: is_over_iff)
next
  assume "\<not> is_over g s'"
  with make_move_over_empty [OF assms(2)]
  show "possible_moves s' = remove1 m (possible_moves s)"
    by (simp add: is_over_iff)
qed

theorem terminal_detection_witness:
  "reachable state1 \<and>
   (\<exists>s'. make_move state1 ''A'' = Inr s' \<and>
          b_length state1 = 1 \<and> b_length s' = 1 \<and> \<bar>3 * (b_length s' + 1)\<bar> \<le> 2 ^ 53 \<and>
          \<not> is_over game1 state1 \<and> is_over game1 s' \<and>
          p1_score s' = 3 \<and> \<lceil>real_of_int (3 * (b_length s' + 1)) / 2\<rceil> = 3 \<and>
          possible_moves s' = [])"
proof -
  have "\<not> isl (make_move state1 ''A'')" by code_simp
  then obtain s' where s': "make_move state1 ''A'' = Inr s'" by (cases "make_move state1 ''A''") auto
  have "p1_score (projr (make_move state1 ''A'')) = 3" by code_simp
  with s' have p: "p1_score s' = 3" by simp
  have b: "b_length state1 = 1" by (simp add: state1_def)
  note td = terminal_detection [OF reachable_state1 s', of game1]
  from td b have b': "b_length s' = 1" by simp
  then have c: "\<lceil>real_of_int (3 * (b_length s' + 1)) / 2\<rceil> = 3" by simp
  from b' have bound: "\<bar>3 * (b_length s' + 1)\<bar> \<le> 2 ^ 53" by simp
  from td have "\<bar>3 * (b_length s' + 1)\<bar> \<le> 2 ^ 53 \<longrightarrow> (is_over game1 s' \<longleftrightarrow>
            \<lceil>real_of_int (3 * (b_length s' + 1)) / 2\<rceil> \<le> p1_score s' \<or>
            \<lceil>real_of_int (3 * (b_length s' + 1)) / 2\<rceil> \<le> p2_score s')" by blast
  with bound have iff: "is_over game1 s' \<longleftrightarrow>
            \<lceil>real_of_int (3 * (b_length s' + 1)) / 2\<rceil> \<le> p1_score s' \<or>
            \<lceil>real_of_int (3 * (b_length s' + 1)) / 2\<rceil> \<le> p2_score s'" by blast
  have o: "is_over game1 s'" unfolding iff c p by simp
  from td have "\<not> is_over game1 state1" and "is_over game1 s' \<longrightarrow> possible_moves s' = []"
    by blast+
  with o c p s' b b' bound reachable_state1 show ?thesis by blast
qed

section \<open>The rough outcome\<close>

text \<open>
  Claim C7.  On the opening state of the board of length 2 no move of the mover wins at
  once (every \<open>check_good_move\<close> is false), and after the move \<open>'A'\<close> no move of the
  opponent wins at once either, so the claim's value is \<open>0\<close>; \<open>rough_outcome\<close> returns
  \<open>-1\<close>: the generator handed to \<open>all\<close> yields lists, and a non-empty list is true.
\<close>

theorem rough_outcome_start_of_size_2:
  "rough_outcome state2 = Inr (- 1) \<and> \<not> is_over game2 state2 \<and>
   map (check_good_move state2) (possible_moves state2) = replicate 7 (Inr False) \<and>
   (\<exists>s. make_move state2 ''A'' = Inr s \<and>
        map (check_good_move s) (possible_moves s) = replicate 6 (Inr False))"
proof -
  have 1: "rough_outcome state2 = Inr (- 1)" by code_simp
  have 2: "\<not> is_over game2 state2" by code_simp
  have 3: "map (check_good_move state2) (possible_moves state2) = replicate 7 (Inr False)"
    by code_simp
  have "\<not> isl (make_move state2 ''A'')" by code_simp
  then obtain s where s: "make_move state2 ''A'' = Inr s" by (cases "make_move state2 ''A''") auto
  have "map (check_good_move (projr (make_move state2 ''A''))) (possible_moves (projr (make_move state2 ''A'')))
      = replicate 6 (Inr False)"
    by code_simp
  with s have 4: "map (check_good_move s) (possible_moves s) = replicate 6 (Inr False)" by simp
  from 1 2 3 4 s show ?thesis by blast
qed

section \<open>The capture rule\<close>

text \<open>
  The rule of the specification for one leyline and one move, to compare \<open>make_move\<close>
  with: the played cell gets the mover's tag, and a leyline that is still unclaimed
  becomes the mover's once the mover's count of its cells is at least
  \<open>ceil(len / 2)\<close>; the mover's score grows by one for each leyline captured, the turn
  flips, the move leaves the legal moves, and a score at the win threshold empties them.
  \<open>spec_claim\<close>, \<open>newly_captured\<close> and \<open>spec_apply\<close> follow these words, not
  the code.
\<close>

definition is_tag :: "string \<Rightarrow> bool" where
  "is_tag x \<longleftrightarrow> x = ''1'' \<or> x = ''2''"

definition line_threshold :: "Leyline \<Rightarrow> nat" where
  "line_threshold ley = nat (ceil_half (int (length (letters ley))))"

definition spec_claim :: "string \<Rightarrow> string \<Rightarrow> Leyline \<Rightarrow> Leyline" where
  "spec_claim player move ley =
     (case find_letter move (letters ley) of
        None \<Rightarrow> ley
      | Some i \<Rightarrow>
          (let ls = (letters ley)[i := player]
           in \<lparr>ley_value = (if is_int (ley_value ley) \<and> line_threshold ley \<le> count_list ls player
                             then StrVal player else ley_value ley),
               letters = ls\<rparr>))"

definition newly_captured :: "string \<Rightarrow> string \<Rightarrow> Leyline list \<Rightarrow> nat" where
  "newly_captured player move lines =
     length (filter (\<lambda>ley. is_int (ley_value ley) \<and> \<not> is_int (ley_value (spec_claim player move ley))) lines)"

definition spec_apply :: "StonehengeState \<Rightarrow> string \<Rightarrow> StonehengeState" where
  "spec_apply s move =
     (let player = (if p1_turn s then ''1'' else ''2'');
          gained = int (newly_captured player move (h_lines s) +
                        newly_captured player move (r_lines s) +
                        newly_captured player move (l_lines s));
          p1 = (if p1_turn s then p1_score s + gained else p1_score s);
          p2 = (if p1_turn s then p2_score s else p2_score s + gained)
      in \<lparr>p1_turn = \<not> p1_turn s, b_length = b_length s, p1_score = p1, p2_score = p2,
          h_lines = map (spec_claim player move) (h_lines s),
          r_lines = map (spec_claim player move) (r_lines s),
          l_lines = map (spec_claim player move) (l_lines s),
          possible_moves =
            (if win_threshold s \<le> p1 \<or> win_threshold s \<le> p2 then []
             else remove1 move (possible_moves s))\<rparr>)"

text \<open>
  The letters of a family that are still cells, the condition that an unclaimed leyline
  has not yet been won by either player, and the number of captured leylines.
\<close>

definition cells :: "Leyline list \<Rightarrow> string list" where
  "cells lines = filter (\<lambda>x. \<not> is_tag x) (concat (map letters lines))"

definition line_ok :: "Leyline \<Rightarrow> bool" where
  "line_ok ley \<longleftrightarrow>
     (is_int (ley_value ley) \<longrightarrow>
        count_list (letters ley) ''1'' < line_threshold ley \<and>
        count_list (letters ley) ''2'' < line_threshold ley)"

definition captured :: "Leyline list \<Rightarrow> nat" where
  "captured lines = length (filter (\<lambda>ley. \<not> is_int (ley_value ley)) lines)"

lemma find_letter_None: "find_letter m ls = None \<longleftrightarrow> m \<notin> set ls"
  by (induction ls) auto

lemma find_letter_Some:
  "find_letter m ls = Some i \<Longrightarrow> i < length ls \<and> ls ! i = m \<and> m \<notin> set (take i ls)"
proof (induction ls arbitrary: i)
  case Nil
  then show ?case by simp
next
  case (Cons x xs)
  show ?case
  proof (cases "x = m")
    case True
    with Cons.prems show ?thesis by simp
  next
    case False
    with Cons.prems obtain j where j: "find_letter m xs = Some j" "i = Suc j" by auto
    from Cons.IH [OF j(1)] False j(2) show ?thesis by simp
  qed
qed

lemma find_letter_split:
  assumes "find_letter m ls = Some i"
  shows "ls = take i ls @ m # drop (Suc i) ls"
  using find_letter_Some [OF assms] by (metis id_take_nth_drop)

lemma find_letter_update:
  assumes "find_letter m ls = Some i"
  shows "ls[i := p] = take i ls @ p # drop (Suc i) ls"
  using find_letter_Some [OF assms] by (simp add: upd_conv_take_nth_drop)

lemma count_list_update:
  assumes "find_letter m ls = Some i" and "m \<noteq> x"
  shows "count_list (ls[i := p]) x = count_list ls x + (if p = x then 1 else 0)"
proof -
  have "count_list ls x = count_list (take i ls @ m # drop (Suc i) ls) x"
    using find_letter_split [OF assms(1)] by simp
  then have "count_list ls x = count_list (take i ls) x + count_list (drop (Suc i) ls) x"
    using assms(2) by simp
  moreover have "count_list (ls[i := p]) x =
      count_list (take i ls) x + (if p = x then 1 else 0) + count_list (drop (Suc i) ls) x"
    by (simp add: find_letter_update [OF assms(1)])
  ultimately show ?thesis by simp
qed

lemma spec_claim_absent: "m \<notin> set (letters ley) \<Longrightarrow> spec_claim p m ley = ley"
  by (simp add: spec_claim_def find_letter_None [THEN iffD2])

text \<open>On a line that satisfies \<open>line_ok\<close>, \<open>change_leyline\<close> after the mover's letter is
  written does what \<open>spec_claim\<close> says.\<close>

lemma change_leyline_spec:
  assumes ok: "line_ok ley" and m: "\<not> is_tag m" and i: "find_letter m (letters ley) = Some i"
    and p: "player = (if p1_turn self then ''1'' else ''2'')"
  shows "change_leyline self (ley\<lparr>letters := (letters ley)[i := player]\<rparr>) =
         (self\<lparr>p1_score := p1_score self +
                  (if p1_turn self \<and> is_int (ley_value ley) \<and> \<not> is_int (ley_value (spec_claim player m ley)) then 1 else 0),
                p2_score := p2_score self +
                  (if \<not> p1_turn self \<and> is_int (ley_value ley) \<and> \<not> is_int (ley_value (spec_claim player m ley)) then 1 else 0)\<rparr>,
          spec_claim player m ley)"
proof -
  from m have ne: "m \<noteq> ''1''" "m \<noteq> ''2''" by (auto simp: is_tag_def)
  note c1 = count_list_update [OF i ne(1), of player]
  note c2 = count_list_update [OF i ne(2), of player]
  show ?thesis
  proof (cases "is_int (ley_value ley)")
    case False
    then show ?thesis
      by (simp add: change_leyline_def spec_claim_def i Let_def)
  next
    case True
    with ok have lt: "count_list (letters ley) ''1'' < line_threshold ley"
      "count_list (letters ley) ''2'' < line_threshold ley"
      by (simp_all add: line_ok_def)
    show ?thesis
    proof (cases "p1_turn self")
      case True
      with p have player: "player = ''1''" by simp
      show ?thesis
        using True \<open>is_int (ley_value ley)\<close> lt c1 c2
        unfolding player change_leyline_def spec_claim_def i
        by (auto simp: Let_def line_threshold_def)
    next
      case False
      with p have player: "player = ''2''" by simp
      show ?thesis
        using False \<open>is_int (ley_value ley)\<close> lt c1 c2
        unfolding player change_leyline_def spec_claim_def i
        by (auto simp: Let_def line_threshold_def)
    qed
  qed
qed


lemma cells_Cons: "cells (ley # lines) = filter (\<lambda>x. \<not> is_tag x) (letters ley) @ cells lines"
  by (simp add: cells_def)

lemma not_in_cells:
  "m \<notin> set (cells lines) \<Longrightarrow> \<not> is_tag m \<Longrightarrow> ley \<in> set lines \<Longrightarrow> m \<notin> set (letters ley)"
  by (auto simp: cells_def)

lemma spec_claim_absent_all:
  assumes "m \<notin> set (cells lines)" and "\<not> is_tag m"
  shows "map (spec_claim p m) lines = lines" and "newly_captured p m lines = 0"
proof -
  have "\<forall>ley \<in> set lines. spec_claim p m ley = ley"
    using not_in_cells [OF assms] by (auto intro: spec_claim_absent)
  then show "map (spec_claim p m) lines = lines" by (simp add: map_idI)
  from \<open>\<forall>ley \<in> set lines. spec_claim p m ley = ley\<close>
  show "newly_captured p m lines = 0" by (auto simp: newly_captured_def)
qed

lemma newly_captured_Cons:
  "newly_captured p m (ley # lines) =
     (if is_int (ley_value ley) \<and> \<not> is_int (ley_value (spec_claim p m ley)) then 1 else 0)
     + newly_captured p m lines"
  by (simp add: newly_captured_def)

text \<open>
  On a family whose unclaimed letters are distinct and whose lines satisfy \<open>line_ok\<close>,
  \<open>change_letter\<close> applies \<open>spec_claim\<close> to every line and adds the lines captured to
  the mover's score.
\<close>

lemma change_letter_spec:
  assumes m: "\<not> is_tag m" and d: "distinct (cells lines)" and ok: "\<forall>ley \<in> set lines. line_ok ley"
    and p: "player = (if p1_turn self then ''1'' else ''2'')"
  shows "change_letter self m lines =
     (self\<lparr>p1_score := p1_score self + (if p1_turn self then int (newly_captured player m lines) else 0),
           p2_score := p2_score self + (if p1_turn self then 0 else int (newly_captured player m lines))\<rparr>,
      map (spec_claim player m) lines)"
  using d ok
proof (induction lines)
  case Nil
  show ?case by (simp add: newly_captured_def)
next
  case (Cons ley rest)
  from Cons.prems have d': "distinct (cells rest)" and ok': "\<forall>l \<in> set rest. line_ok l"
    and okl: "line_ok ley"
    by (simp_all add: cells_Cons)
  show ?case
  proof (cases "find_letter m (letters ley)")
    case None
    then have "m \<notin> set (letters ley)" by (simp add: find_letter_None)
    then have same: "spec_claim player m ley = ley" by (rule spec_claim_absent)
    from Cons.IH [OF d' ok'] None same show ?thesis
      by (simp add: newly_captured_Cons)
  next
    case (Some i)
    then have "m \<in> set (letters ley)" using find_letter_None [of m "letters ley"] by auto
    with m have "m \<in> set (filter (\<lambda>x. \<not> is_tag x) (letters ley))" by simp
    with Cons.prems(1) have "m \<notin> set (cells rest)" by (auto simp: cells_Cons)
    note rest = spec_claim_absent_all [OF this m, of player]
    from change_leyline_spec [OF okl m Some p] Some rest show ?thesis
      by (simp add: newly_captured_Cons Let_def p [symmetric])
  qed
qed

definition family_ok :: "Leyline list \<Rightarrow> bool" where
  "family_ok lines \<longleftrightarrow> distinct (cells lines) \<and> (\<forall>ley \<in> set lines. line_ok ley)"

lemma make_move_spec:
  assumes m: "m \<in> set (possible_moves s)" "\<not> is_tag m"
    and h: "family_ok (h_lines s)" and r: "family_ok (r_lines s)" and l: "family_ok (l_lines s)"
  shows "make_move s m = Inr (spec_apply s m)"
proof -
  note cl = change_letter_spec [OF m(2) _ _ refl]
  from h r l have f: "distinct (cells (h_lines s))" "\<forall>ley \<in> set (h_lines s). line_ok ley"
    "distinct (cells (r_lines s))" "\<forall>ley \<in> set (r_lines s). line_ok ley"
    "distinct (cells (l_lines s))" "\<forall>ley \<in> set (l_lines s). line_ok ley"
    by (simp_all add: family_ok_def)
  show ?thesis
  proof (cases "p1_turn s")
    case True
    then show ?thesis
      unfolding make_move_def spec_apply_def using m(1) f
      by (simp add: cl Let_def StonehengeState_init_def py_remove_def get_possible_moves_def
          win_threshold_def)
  next
    case False
    then show ?thesis
      unfolding make_move_def spec_apply_def using m(1) f
      by (simp add: cl Let_def StonehengeState_init_def py_remove_def get_possible_moves_def
          win_threshold_def)
  qed
qed


section \<open>An invariant of the states of a game\<close>

definition state_inv :: "StonehengeState \<Rightarrow> bool" where
  "state_inv s \<longleftrightarrow>
     family_ok (h_lines s) \<and> family_ok (r_lines s) \<and> family_ok (l_lines s) \<and>
     p1_score s + p2_score s =
       int (captured (h_lines s) + captured (r_lines s) + captured (l_lines s)) \<and>
     int (length (h_lines s) + length (r_lines s) + length (l_lines s)) = 3 * (b_length s + 1) \<and>
     int (length (concat (map letters (h_lines s)))) = (b_length s * b_length s + 5 * b_length s) div 2 \<and>
     distinct (possible_moves s) \<and>
     (if win_threshold s \<le> p1_score s \<or> win_threshold s \<le> p2_score s
      then possible_moves s = []
      else set (cells (h_lines s)) = set (possible_moves s) \<and>
           set (cells (r_lines s)) = set (possible_moves s) \<and>
           set (cells (l_lines s)) = set (possible_moves s))"

lemma spec_claim_length: "length (letters (spec_claim p m ley)) = length (letters ley)"
  by (simp add: spec_claim_def Let_def split: option.splits)

lemma spec_claim_threshold: "line_threshold (spec_claim p m ley) = line_threshold ley"
  by (simp add: line_threshold_def spec_claim_length)

lemma spec_claim_keeps_captured:
  "\<not> is_int (ley_value ley) \<Longrightarrow> ley_value (spec_claim p m ley) = ley_value ley"
  by (simp add: spec_claim_def Let_def split: option.splits)

lemma spec_claim_line_ok:
  assumes ok: "line_ok ley" and m: "\<not> is_tag m" and p: "is_tag p"
  shows "line_ok (spec_claim p m ley)"
proof (cases "find_letter m (letters ley)")
  case None
  with ok show ?thesis by (simp add: spec_claim_def)
next
  case (Some i)
  from m have ne: "m \<noteq> ''1''" "m \<noteq> ''2''" by (auto simp: is_tag_def)
  note c1 = count_list_update [OF Some ne(1), of p]
  note c2 = count_list_update [OF Some ne(2), of p]
  from p have "p = ''1'' \<or> p = ''2''" by (simp add: is_tag_def)
  then show ?thesis
  proof
    assume "p = ''1''"
    with ok c1 c2 Some show ?thesis
      by (auto simp: line_ok_def spec_claim_def Let_def line_threshold_def)
  next
    assume "p = ''2''"
    with ok c1 c2 Some show ?thesis
      by (auto simp: line_ok_def spec_claim_def Let_def line_threshold_def)
  qed
qed

lemma line_cells_spec_claim:
  assumes m: "\<not> is_tag m" and p: "is_tag p" and i: "find_letter m (letters ley) = Some i"
  shows "filter (\<lambda>x. \<not> is_tag x) (letters (spec_claim p m ley)) =
         remove1 m (filter (\<lambda>x. \<not> is_tag x) (letters ley))"
proof -
  let ?f = "filter (\<lambda>x. \<not> is_tag x)"
  let ?a = "take i (letters ley)" and ?b = "drop (Suc i) (letters ley)"
  have "letters (spec_claim p m ley) = ?a @ p # ?b"
    by (simp add: spec_claim_def i Let_def find_letter_update [OF i])
  with p have new: "?f (letters (spec_claim p m ley)) = ?f ?a @ ?f ?b" by simp
  have "?f (letters ley) = ?f (?a @ m # ?b)" using find_letter_split [OF i] by simp
  with m have old: "?f (letters ley) = ?f ?a @ m # ?f ?b" by simp
  from find_letter_Some [OF i] have "m \<notin> set ?a" by simp
  then have "m \<notin> set (?f ?a)" by simp
  then have "remove1 m (?f ?a @ m # ?f ?b) = ?f ?a @ ?f ?b"
    by (simp only: remove1_append if_False remove1.simps if_True refl)
  with new old show ?thesis by simp
qed

lemma cells_spec_claim:
  assumes d: "distinct (cells lines)" and m: "\<not> is_tag m" and p: "is_tag p"
  shows "cells (map (spec_claim p m) lines) = remove1 m (cells lines)"
  using d
proof (induction lines)
  case Nil
  show ?case by (simp add: cells_def)
next
  case (Cons ley rest)
  from Cons.prems have d': "distinct (cells rest)" by (simp add: cells_Cons)
  show ?case
  proof (cases "find_letter m (letters ley)")
    case None
    then have out: "m \<notin> set (letters ley)" by (simp add: find_letter_None)
    then have "spec_claim p m ley = ley" by (rule spec_claim_absent)
    with Cons.IH [OF d'] out show ?thesis by (simp add: cells_Cons remove1_append)
  next
    case (Some i)
    then have "m \<in> set (letters ley)" using find_letter_None [of m "letters ley"] by auto
    with m have inl: "m \<in> set (filter (\<lambda>x. \<not> is_tag x) (letters ley))" by simp
    with Cons.prems have "m \<notin> set (cells rest)" by (auto simp: cells_Cons)
    from spec_claim_absent_all(1) [OF this m] line_cells_spec_claim [OF m p Some] inl
    show ?thesis by (simp add: cells_Cons remove1_append)
  qed
qed

lemma captured_spec_claim:
  "captured (map (spec_claim p m) lines) = captured lines + newly_captured p m lines"
proof (induction lines)
  case Nil
  show ?case by (simp add: captured_def newly_captured_def)
next
  case (Cons ley rest)
  then show ?case
    using spec_claim_keeps_captured [of ley p m]
    by (auto simp: captured_def newly_captured_def)
qed

lemma letters_total_spec_claim:
  "length (concat (map (letters \<circ> spec_claim p m) lines)) = length (concat (map letters lines))"
  by (induction lines) (simp_all add: spec_claim_length)

lemma state_inv_not_tag:
  assumes "state_inv s" and "m \<in> set (possible_moves s)"
  shows "\<not> is_tag m"
proof -
  from assms have "set (cells (h_lines s)) = set (possible_moves s)"
    by (auto simp: state_inv_def split: if_splits)
  with assms(2) have "m \<in> set (cells (h_lines s))" by simp
  then show ?thesis by (simp add: cells_def)
qed

lemma state_inv_spec_apply:
  assumes inv: "state_inv s" and m: "m \<in> set (possible_moves s)"
  shows "state_inv (spec_apply s m)"
proof -
  let ?p = "if p1_turn s then ''1'' else ''2''"
  have p: "is_tag ?p" by (simp add: is_tag_def)
  note nt = state_inv_not_tag [OF inv m]
  from inv m have live: "\<not> (win_threshold s \<le> p1_score s \<or> win_threshold s \<le> p2_score s)"
    by (auto simp: state_inv_def split: if_splits)
  with inv have sets: "set (cells (h_lines s)) = set (possible_moves s)"
    "set (cells (r_lines s)) = set (possible_moves s)"
    "set (cells (l_lines s)) = set (possible_moves s)"
    by (simp_all add: state_inv_def)
  from inv have fam: "family_ok (h_lines s)" "family_ok (r_lines s)" "family_ok (l_lines s)"
    and dm: "distinct (possible_moves s)"
    by (simp_all add: state_inv_def)
  have fam': "family_ok (map (spec_claim ?p m) F)" if "family_ok F" for F
    using that cells_spec_claim [of F m ?p] spec_claim_line_ok [OF _ nt p] nt p
    by (auto simp: family_ok_def)
  have sets': "set (cells (map (spec_claim ?p m) F)) = set (remove1 m (possible_moves s))"
    if "family_ok F" "set (cells F) = set (possible_moves s)" for F
    using that cells_spec_claim [of F m ?p] nt p dm
    by (simp add: family_ok_def)
  show ?thesis
    unfolding state_inv_def
  proof (intro conjI)
    show "family_ok (h_lines (spec_apply s m))" using fam'[OF fam(1)] by (simp add: spec_apply_def Let_def)
    show "family_ok (r_lines (spec_apply s m))" using fam'[OF fam(2)] by (simp add: spec_apply_def Let_def)
    show "family_ok (l_lines (spec_apply s m))" using fam'[OF fam(3)] by (simp add: spec_apply_def Let_def)
    show "p1_score (spec_apply s m) + p2_score (spec_apply s m) =
       int (captured (h_lines (spec_apply s m)) + captured (r_lines (spec_apply s m)) +
            captured (l_lines (spec_apply s m)))"
      using inv by (simp add: spec_apply_def Let_def captured_spec_claim state_inv_def)
    show "int (length (h_lines (spec_apply s m)) + length (r_lines (spec_apply s m)) +
               length (l_lines (spec_apply s m))) = 3 * (b_length (spec_apply s m) + 1)"
      using inv by (simp add: spec_apply_def Let_def state_inv_def)
    show "int (length (concat (map letters (h_lines (spec_apply s m))))) =
       (b_length (spec_apply s m) * b_length (spec_apply s m) + 5 * b_length (spec_apply s m)) div 2"
      using inv by (simp add: spec_apply_def Let_def state_inv_def letters_total_spec_claim)
    show "distinct (possible_moves (spec_apply s m))"
      using dm by (simp add: spec_apply_def Let_def)
    show "if win_threshold (spec_apply s m) \<le> p1_score (spec_apply s m) \<or>
             win_threshold (spec_apply s m) \<le> p2_score (spec_apply s m)
          then possible_moves (spec_apply s m) = []
          else set (cells (h_lines (spec_apply s m))) = set (possible_moves (spec_apply s m)) \<and>
               set (cells (r_lines (spec_apply s m))) = set (possible_moves (spec_apply s m)) \<and>
               set (cells (l_lines (spec_apply s m))) = set (possible_moves (spec_apply s m))"
      using sets'[OF fam(1) sets(1)] sets'[OF fam(2) sets(2)] sets'[OF fam(3) sets(3)]
      by (simp add: spec_apply_def Let_def win_threshold_def)
  qed
qed

lemma state_inv_make_move:
  assumes "state_inv s" and "make_move s m = Inr s'"
  shows "s' = spec_apply s m" and "state_inv s'"
proof -
  from assms(2) have m: "m \<in> set (possible_moves s)" by (rule make_move_in_moves)
  from assms(1) have "family_ok (h_lines s)" "family_ok (r_lines s)" "family_ok (l_lines s)"
    by (simp_all add: state_inv_def)
  from make_move_spec [OF m state_inv_not_tag [OF assms(1) m] this] assms(2)
  show "s' = spec_apply s m" by simp
  with state_inv_spec_apply [OF assms(1) m] show "state_inv s'" by simp
qed

lemma Stonehenge_init_turn:
  "Stonehenge_init is_p1 b = Inr g \<Longrightarrow>
     \<exists>g'. Stonehenge_init True b = Inr g' \<and> current_state g = (current_state g')\<lparr>p1_turn := is_p1\<rparr>"
  by (auto simp: Stonehenge_init_def StonehengeState_init_def split: sum.splits)

lemma state_inv_turn: "state_inv (s\<lparr>p1_turn := x\<rparr>) = state_inv s"
  by (simp add: state_inv_def win_threshold_def)

definition init_ok :: "int \<Rightarrow> bool" where
  "init_ok b = (case Stonehenge_init True b of Inl e \<Rightarrow> False | Inr g \<Rightarrow> state_inv (current_state g))"

lemma init_ok_1: "init_ok 1" by code_simp
lemma init_ok_2: "init_ok 2" by code_simp
lemma init_ok_3: "init_ok 3" by code_simp
lemma init_ok_4: "init_ok 4" by code_simp
lemma init_ok_5: "init_ok 5" by code_simp

section \<open>The stack machine computes what the recursion computes\<close>

lemma map_result_Inr_iff:
  "map_result f xs = Inr ys \<longleftrightarrow> list_all2 (\<lambda>x y. f x = Inr y) xs ys"
proof (induction xs arbitrary: ys)
  case Nil
  show ?case by auto
next
  case (Cons x xs)
  show ?case
    by (cases ys) (auto simp: Cons.IH [symmetric] split: sum.splits)
qed

lemma map_result_length: "map_result f xs = Inr ys \<Longrightarrow> length ys = length xs"
  by (simp add: map_result_Inr_iff list_all2_lengthD)

lemma upt_shift: "[n ..< n + Suc k] = n # [Suc n ..< Suc n + k]"
  by (subst upt_rec) simp

text \<open>The expansion of a node: one new node for each move, in order, at the end of the
  store; the node's children and the stack get their addresses.\<close>

lemma expand_loop_result:
  assumes "map_result (game_after (tree_game (store ! cg))) moves = Inr gs"
    and "cg < length store"
  shows "expand_loop store s cg moves =
     Inr ((store @ map GameTree_init gs)
            [cg := (store ! cg)\<lparr>children := children (store ! cg) @
                                       [length store ..< length store + length gs]\<rparr>],
          s @ [length store ..< length store + length gs])"
  using assms
proof (induction moves arbitrary: store s gs)
  case Nil
  then show ?case by simp
next
  case (Cons m rest)
  from Cons.prems(1) obtain g gs' where g: "game_after (tree_game (store ! cg)) m = Inr g"
    and gs': "map_result (game_after (tree_game (store ! cg))) rest = Inr gs'"
    and gs: "gs = g # gs'"
    by (auto split: sum.splits)
  let ?n = "length store"
  let ?store2 = "(store @ [GameTree_init g])
       [cg := (store ! cg)\<lparr>children := children (store ! cg) @ [?n]\<rparr>]"
  have c2: "?store2 ! cg = (store ! cg)\<lparr>children := children (store ! cg) @ [?n]\<rparr>"
    using Cons.prems(2) by simp
  have len2: "length ?store2 = Suc ?n" by simp
  have step: "expand_loop store s cg (m # rest) = expand_loop ?store2 (s @ [?n]) cg rest"
    using g Cons.prems(2) by (simp add: Let_def nth_append)
  have "map_result (game_after (tree_game (?store2 ! cg))) rest = Inr gs'"
    using gs' c2 by simp
  from Cons.IH [OF this, of "s @ [?n]"] Cons.prems(2)
  have "expand_loop ?store2 (s @ [?n]) cg rest =
     Inr ((?store2 @ map GameTree_init gs')
            [cg := (?store2 ! cg)\<lparr>children := children (?store2 ! cg) @
                                       [length ?store2 ..< length ?store2 + length gs']\<rparr>],
          (s @ [?n]) @ [length ?store2 ..< length ?store2 + length gs'])"
    by simp
  also have "(?store2 @ map GameTree_init gs')
            [cg := (?store2 ! cg)\<lparr>children := children (?store2 ! cg) @
                                       [length ?store2 ..< length ?store2 + length gs']\<rparr>]
      = (store @ map GameTree_init gs)
            [cg := (store ! cg)\<lparr>children := children (store ! cg) @
                                       [?n ..< ?n + length gs]\<rparr>]"
  proof -
    have "children (store ! cg) @ [?n] @ [Suc ?n ..< Suc ?n + length gs'] =
          children (store ! cg) @ [?n ..< ?n + length gs]"
      by (simp only: gs length_Cons upt_shift append.simps)
    moreover have "?store2 @ map GameTree_init gs' =
        (store @ map GameTree_init gs)[cg := (store ! cg)\<lparr>children := children (store ! cg) @ [?n]\<rparr>]"
      using Cons.prems(2) by (simp add: gs list_update_append1)
    ultimately show ?thesis
      unfolding c2 len2 by simp
  qed
  also have "(s @ [?n]) @ [length ?store2 ..< length ?store2 + length gs'] =
      s @ [?n ..< ?n + length gs]"
    unfolding len2 by (simp only: gs length_Cons upt_shift append.simps append_assoc)
  finally show ?case using step by simp
qed


text \<open>
  A game \<open>g\<close> evaluates to \<open>v\<close> when the loop, started with a fresh node for \<open>g\<close> on top
  of any stack, reaches the same stack without that node, the node scored \<open>v\<close> and all
  other nodes of the store as they were.  The root \<open>gt\<close> is another node, not yet scored.
\<close>

definition evaluates :: "Stonehenge \<Rightarrow> int \<Rightarrow> bool" where
  "evaluates g v \<longleftrightarrow>
     (\<forall>store s n gt.
        n < length store \<longrightarrow> store ! n = GameTree_init g \<longrightarrow>
        gt < length store \<longrightarrow> gt \<noteq> n \<longrightarrow> score (store ! gt) = None \<longrightarrow>
        (\<exists>store'. iterative_loop store (s @ [n]) gt = iterative_loop store' s gt \<and>
                  length store \<le> length store' \<and>
                  (\<forall>i < length store. i \<noteq> n \<longrightarrow> store' ! i = store ! i) \<and>
                  score (store' ! n) = Some v))"

lemma evaluatesD:
  assumes "evaluates g v" and "n < length store" and "store ! n = GameTree_init g"
    and "gt < length store" and "gt \<noteq> n" and "score (store ! gt) = None"
  obtains store' where "iterative_loop store (s @ [n]) gt = iterative_loop store' s gt"
    and "length store \<le> length store'"
    and "\<And>i. i < length store \<Longrightarrow> i \<noteq> n \<Longrightarrow> store' ! i = store ! i"
    and "score (store' ! n) = Some v"
  using assms unfolding evaluates_def by blast

text \<open>The children of a node, on top of the stack in the order of their addresses, are
  evaluated from the last to the first.\<close>

lemma eval_children:
  assumes "list_all2 evaluates gs scores"
    and "\<forall>j < length gs. store ! (a + j) = GameTree_init (gs ! j)"
    and "a + length gs \<le> length store"
    and "gt < length store" and "gt < a \<or> a + length gs \<le> gt" and "score (store ! gt) = None"
  shows "\<exists>store'. iterative_loop store (s @ [a ..< a + length gs]) gt = iterative_loop store' s gt \<and>
           length store \<le> length store' \<and>
           (\<forall>i < length store. i < a \<or> a + length gs \<le> i \<longrightarrow> store' ! i = store ! i) \<and>
           (\<forall>j < length gs. score (store' ! (a + j)) = Some (scores ! j))"
  using assms
proof (induction gs arbitrary: scores a s store)
  case Nil
  then show ?case by auto
next
  case (Cons g gs')
  from Cons.prems(1) obtain v scores' where sc: "scores = v # scores'"
    and ev: "evaluates g v" and evs: "list_all2 evaluates gs' scores'"
    by (auto simp: list_all2_Cons1)
  let ?k = "length gs'"
  have stack: "s @ [a ..< a + length (g # gs')] = (s @ [a]) @ [Suc a ..< Suc a + ?k]"
    by (simp only: length_Cons upt_shift append.simps append_assoc)
  have fresh': "\<forall>j < ?k. store ! (Suc a + j) = GameTree_init (gs' ! j)"
  proof (intro allI impI)
    fix j assume "j < ?k"
    then have "Suc j < length (g # gs')" by simp
    with Cons.prems(2) have "store ! (a + Suc j) = GameTree_init ((g # gs') ! Suc j)" by blast
    then show "store ! (Suc a + j) = GameTree_init (gs' ! j)" by simp
  qed
  have bound': "Suc a + ?k \<le> length store" using Cons.prems(3) by simp
  have gt': "gt < Suc a \<or> Suc a + ?k \<le> gt" using Cons.prems(5) by auto
  from Cons.IH [OF evs fresh' bound' Cons.prems(4) gt' Cons.prems(6), of "s @ [a]"]
  obtain store1 where
    run1: "iterative_loop store ((s @ [a]) @ [Suc a ..< Suc a + ?k]) gt = iterative_loop store1 (s @ [a]) gt"
    and len1: "length store \<le> length store1"
    and frame1: "\<And>i. i < length store \<Longrightarrow> i < Suc a \<or> Suc a + ?k \<le> i \<Longrightarrow> store1 ! i = store ! i"
    and scores1: "\<And>j. j < ?k \<Longrightarrow> score (store1 ! (Suc a + j)) = Some (scores' ! j)"
    by blast
  have a_store: "a < length store" using Cons.prems(3) by simp
  have "store ! (a + 0) = GameTree_init ((g # gs') ! 0)" using Cons.prems(2) by blast
  then have a_fresh: "store1 ! a = GameTree_init g" using frame1 [of a] a_store by simp
  have gt1: "gt < length store1" "gt \<noteq> a" "score (store1 ! gt) = None"
    using Cons.prems(4,5,6) len1 frame1 [of gt] by auto
  from a_store len1 have "a < length store1" by simp
  from evaluatesD [OF ev this a_fresh gt1, of s]
  obtain store2 where
    run2: "iterative_loop store1 (s @ [a]) gt = iterative_loop store2 s gt"
    and len2: "length store1 \<le> length store2"
    and frame2: "\<And>i. i < length store1 \<Longrightarrow> i \<noteq> a \<Longrightarrow> store2 ! i = store1 ! i"
    and score2: "score (store2 ! a) = Some v"
    by blast
  have "iterative_loop store (s @ [a ..< a + length (g # gs')]) gt = iterative_loop store2 s gt"
    using run1 run2 by (simp only: stack)
  moreover have "length store \<le> length store2" using len1 len2 by simp
  moreover have "\<forall>i < length store. i < a \<or> a + length (g # gs') \<le> i \<longrightarrow> store2 ! i = store ! i"
  proof (intro allI impI)
    fix i assume i: "i < length store" "i < a \<or> a + length (g # gs') \<le> i"
    then have "store2 ! i = store1 ! i" using frame2 [of i] len1 by auto
    also have "\<dots> = store ! i" using frame1 [of i] i by auto
    finally show "store2 ! i = store ! i" .
  qed
  moreover have "\<forall>j < length (g # gs'). score (store2 ! (a + j)) = Some (scores ! j)"
  proof (intro allI impI)
    fix j assume j: "j < length (g # gs')"
    show "score (store2 ! (a + j)) = Some (scores ! j)"
    proof (cases j)
      case 0
      with score2 sc show ?thesis by simp
    next
      case (Suc j')
      with j have j': "j' < ?k" by simp
      then have "Suc a + j' < length store1" using bound' len1 by simp
      then have "store2 ! (Suc a + j') = store1 ! (Suc a + j')" using frame2 by simp
      with scores1 [OF j'] Suc sc show ?thesis by simp
    qed
  qed
  ultimately show ?case by blast
qed


lemma children_max_scores:
  assumes "\<forall>j < length scores. score (store ! (a + j)) = Some (scores ! j)"
  shows "children_max store [a ..< a + length scores] = py_max (map uminus scores)"
proof -
  have "map_result (\<lambda>g. case score (store ! g) of None \<Rightarrow> Inl TypeError | Some v \<Rightarrow> Inr (- 1 * v))
          [a ..< a + length scores] = Inr (map uminus scores)"
    unfolding map_result_Inr_iff list_all2_conv_all_nth using assms by simp
  then show ?thesis by (simp add: children_max_def)
qed

lemma children_max_cong:
  assumes "\<forall>c \<in> set cs. score (store1 ! c) = score (store2 ! c)"
  shows "children_max store1 cs = children_max store2 cs"
proof -
  have "map_result (\<lambda>g. case score (store1 ! g) of None \<Rightarrow> Inl TypeError | Some v \<Rightarrow> Inr (- 1 * v)) cs
      = map_result (\<lambda>g. case score (store2 ! g) of None \<Rightarrow> Inl TypeError | Some v \<Rightarrow> Inr (- 1 * v)) cs"
    using assms by (intro map_result_cong) simp_all
  then show ?thesis by (simp add: children_max_def)
qed

lemma loop_body_expand:
  assumes "\<not> is_over (tree_game (store ! n)) (current_state (tree_game (store ! n)))"
    and "children (store ! n) = []"
  shows "loop_body store (s @ [n]) =
     expand_loop store ((s @ [n]) @ [n]) n (get_possible_moves (current_state (tree_game (store ! n))))"
  using assms unfolding loop_body_def py_get_last by (simp add: Let_def)

lemma loop_body_score:
  assumes "\<not> is_over (tree_game (store ! n)) (current_state (tree_game (store ! n)))"
    and "children (store ! n) \<noteq> []" and "children_max store (children (store ! n)) = Inr v"
  shows "loop_body store (s @ [n]) = Inr (store[n := (store ! n)\<lparr>score := Some v\<rparr>], s)"
  using assms unfolding loop_body_def py_get_last by (simp add: Let_def)

text \<open>From a fresh node of a game that is not over to the point where its children are
  scored and the node is on top of the stack again (it was pushed a second time).\<close>

lemma first_pass:
  assumes live: "\<not> is_over g (current_state g)"
    and gs: "map_result (game_after g) (get_possible_moves (current_state g)) = Inr gs"
    and ev: "list_all2 evaluates gs scores"
    and mx: "py_max (map uminus scores) = Inr v"
    and n: "n < length store" "store ! n = GameTree_init g"
    and gt: "gt < length store" "score (store ! gt) = None"
  shows "\<exists>store'. iterative_loop store (s @ [n]) gt = iterative_loop store' ((s @ [n]) @ [n]) gt \<and>
           length store \<le> length store' \<and>
           (\<forall>i < length store. i \<noteq> n \<longrightarrow> store' ! i = store ! i) \<and>
           tree_game (store' ! n) = g \<and> score (store' ! n) = None \<and>
           children (store' ! n) \<noteq> [] \<and>
           children_max store' (children (store' ! n)) = Inr v \<and>
           (\<forall>c \<in> set (children (store' ! n)). c \<noteq> n)"
proof -
  let ?n0 = "length store" and ?k = "length gs"
  from ev have len: "length scores = ?k" by (simp add: list_all2_lengthD)
  from mx have "scores \<noteq> []" by auto
  with len have k: "0 < ?k" by auto
  let ?cs = "[?n0 ..< ?n0 + ?k]"
  let ?store1 = "(store @ map GameTree_init gs)[n := (store ! n)\<lparr>children := children (store ! n) @ ?cs\<rparr>]"
  have node: "tree_game (store ! n) = g" "children (store ! n) = []" "score (store ! n) = None"
    using n(2) by (simp_all add: GameTree_init_def)
  have "loop_body store (s @ [n]) = Inr (?store1, ((s @ [n]) @ [n]) @ ?cs)"
    using loop_body_expand [of store n s] expand_loop_result [of store n _ gs "(s @ [n]) @ [n]"]
      node live gs n(1) by simp
  with gt(2) have run0: "iterative_loop store (s @ [n]) gt = iterative_loop ?store1 (((s @ [n]) @ [n]) @ ?cs) gt"
    by (rule iterative_loop_step)
  have len1: "length ?store1 = ?n0 + ?k" by simp
  have n1: "?store1 ! n = (store ! n)\<lparr>children := ?cs\<rparr>"
    using n(1) node by (simp add: nth_append)
  have old1: "?store1 ! i = store ! i" if "i < ?n0" "i \<noteq> n" for i
    using that by (simp add: nth_append)
  have fresh1: "\<forall>j < ?k. ?store1 ! (?n0 + j) = GameTree_init (gs ! j)"
    using n(1) by (simp add: nth_append)
  have gt1: "gt < length ?store1" "gt < ?n0 \<or> ?n0 + ?k \<le> gt" "score (?store1 ! gt) = None"
    using gt node n1 old1 [of gt] by (cases "gt = n"; simp)+
  from eval_children [OF ev fresh1 _ gt1, of "(s @ [n]) @ [n]"] len1
  obtain store2 where
    run2: "iterative_loop ?store1 (((s @ [n]) @ [n]) @ ?cs) gt = iterative_loop store2 ((s @ [n]) @ [n]) gt"
    and len2: "length ?store1 \<le> length store2"
    and frame2: "\<And>i. i < length ?store1 \<Longrightarrow> i < ?n0 \<or> ?n0 + ?k \<le> i \<Longrightarrow> store2 ! i = ?store1 ! i"
    and scores2: "\<And>j. j < ?k \<Longrightarrow> score (store2 ! (?n0 + j)) = Some (scores ! j)"
    by auto
  have n2: "store2 ! n = (store ! n)\<lparr>children := ?cs\<rparr>"
    using frame2 [of n] n(1) n1 by simp
  have "children_max store2 [?n0 ..< ?n0 + length scores] = py_max (map uminus scores)"
    by (rule children_max_scores) (simp add: len scores2)
  with mx len have cm: "children_max store2 ?cs = Inr v" by simp
  have "iterative_loop store (s @ [n]) gt = iterative_loop store2 ((s @ [n]) @ [n]) gt"
    using run0 run2 by simp
  moreover have "length store \<le> length store2" using len2 by simp
  moreover have "\<forall>i < length store. i \<noteq> n \<longrightarrow> store2 ! i = store ! i"
    using frame2 old1 by simp
  moreover have "tree_game (store2 ! n) = g" "score (store2 ! n) = None"
    using n2 node by simp_all
  moreover have "children (store2 ! n) \<noteq> []" using n2 k by simp
  moreover have "children_max store2 (children (store2 ! n)) = Inr v" using n2 cm by simp
  moreover have "\<forall>c \<in> set (children (store2 ! n)). c \<noteq> n" using n2 n(1) by auto
  ultimately show ?thesis by blast
qed

lemma evaluates_over:
  assumes "is_over g (current_state g)"
  shows "evaluates g (- 1)"
  unfolding evaluates_def
proof (intro allI impI)
  fix store s n gt
  assume n: "n < length store" "store ! n = GameTree_init g"
    and gt: "gt < length store" "gt \<noteq> n" "score (store ! gt) = None"
  let ?store' = "store[n := (store ! n)\<lparr>score := Some (- 1)\<rparr>]"
  have "tree_game (store ! n) = g" using n(2) by (simp add: GameTree_init_def)
  with assms have "loop_body store (s @ [n]) = Inr (?store', s)"
    by (intro loop_body_over) simp
  with gt(3) have "iterative_loop store (s @ [n]) gt = iterative_loop ?store' s gt"
    by (rule iterative_loop_step)
  moreover have "score (?store' ! n) = Some (- 1)" using n(1) by simp
  ultimately show "\<exists>store'. iterative_loop store (s @ [n]) gt = iterative_loop store' s gt \<and>
                  length store \<le> length store' \<and>
                  (\<forall>i < length store. i \<noteq> n \<longrightarrow> store' ! i = store ! i) \<and>
                  score (store' ! n) = Some (- 1)"
    by (intro exI [of _ ?store']) simp
qed

lemma evaluates_step:
  assumes live: "\<not> is_over g (current_state g)"
    and gs: "map_result (game_after g) (get_possible_moves (current_state g)) = Inr gs"
    and ev: "list_all2 evaluates gs scores"
    and mx: "py_max (map uminus scores) = Inr v"
  shows "evaluates g v"
  unfolding evaluates_def
proof (intro allI impI)
  fix store s n gt
  assume n: "n < length store" "store ! n = GameTree_init g"
    and gt: "gt < length store" "gt \<noteq> n" "score (store ! gt) = None"
  from first_pass [OF live gs ev mx n gt(1,3), of s]
  obtain store2 where
    run2: "iterative_loop store (s @ [n]) gt = iterative_loop store2 ((s @ [n]) @ [n]) gt"
    and len2: "length store \<le> length store2"
    and frame2: "\<And>i. i < length store \<Longrightarrow> i \<noteq> n \<Longrightarrow> store2 ! i = store ! i"
    and node2: "tree_game (store2 ! n) = g" "score (store2 ! n) = None" "children (store2 ! n) \<noteq> []"
      "children_max store2 (children (store2 ! n)) = Inr v"
    and cs2: "\<forall>c \<in> set (children (store2 ! n)). c \<noteq> n"
    by blast
  let ?store3 = "store2[n := (store2 ! n)\<lparr>score := Some v\<rparr>]"
  have n2: "n < length store2" using n(1) len2 by simp
  have gt2: "score (store2 ! gt) = None" using frame2 [OF gt(1,2)] gt(3) by simp
  have "loop_body store2 ((s @ [n]) @ [n]) = Inr (?store3, s @ [n])"
    using live node2 by (intro loop_body_score) simp_all
  with gt2 have run3: "iterative_loop store2 ((s @ [n]) @ [n]) gt = iterative_loop ?store3 (s @ [n]) gt"
    by (rule iterative_loop_step)
  have node3: "?store3 ! n = (store2 ! n)\<lparr>score := Some v\<rparr>" using n2 by simp
  have "children_max ?store3 (children (store2 ! n)) = children_max store2 (children (store2 ! n))"
    using cs2 by (intro children_max_cong) (auto simp: nth_list_update)
  with node2 node3 live have "loop_body ?store3 (s @ [n]) = Inr (?store3[n := (?store3 ! n)\<lparr>score := Some v\<rparr>], s)"
    by (intro loop_body_score) simp_all
  moreover have "?store3[n := (?store3 ! n)\<lparr>score := Some v\<rparr>] = ?store3" using n2 by simp
  moreover have "score (?store3 ! gt) = None" using gt2 gt(2) by simp
  ultimately have run4: "iterative_loop ?store3 (s @ [n]) gt = iterative_loop ?store3 s gt"
    using iterative_loop_step [of ?store3 gt "s @ [n]" ?store3 s] by simp
  have "iterative_loop store (s @ [n]) gt = iterative_loop ?store3 s gt"
    using run2 run3 run4 by simp
  moreover have "\<forall>i < length store. i \<noteq> n \<longrightarrow> ?store3 ! i = store ! i"
    using frame2 by simp
  moreover have "score (?store3 ! n) = Some v" using n2 by simp
  ultimately show "\<exists>store'. iterative_loop store (s @ [n]) gt = iterative_loop store' s gt \<and>
                  length store \<le> length store' \<and>
                  (\<forall>i < length store. i \<noteq> n \<longrightarrow> store' ! i = store ! i) \<and>
                  score (store' ! n) = Some v"
    using len2 by (intro exI [of _ ?store3]) simp
qed

lemma recursive_helper_cases:
  assumes "recursive_helper g = Inr v" and "\<not> is_over g (current_state g)"
  obtains gs scores where
    "map_result (game_after g) (get_possible_moves (current_state g)) = Inr gs"
    "map_result recursive_helper gs = Inr scores"
    "py_max (map uminus scores) = Inr v"
proof -
  have e: "(*) (- 1 :: int) = uminus" by auto
  from assms that show thesis
    by (subst (asm) recursive_helper.simps) (auto simp: Let_def e split: sum.splits)
qed

lemma recursive_helper_evaluates:
  "recursive_helper g = Inr v \<Longrightarrow> evaluates g v"
proof (induction g arbitrary: v rule: recursive_helper.induct)
  case (1 game)
  show ?case
  proof (cases "is_over game (current_state game)")
    case True
    from "1.prems" recursive_helper_over [OF True] have "v = - 1" by simp
    with evaluates_over [OF True] show ?thesis by simp
  next
    case False
    from recursive_helper_cases [OF "1.prems" False] obtain gs scores where
      gs: "map_result (game_after game) (get_possible_moves (current_state game)) = Inr gs"
      and sc: "map_result recursive_helper gs = Inr scores"
      and mx: "py_max (map uminus scores) = Inr v"
      by blast
    from sc have "list_all2 (\<lambda>c w. recursive_helper c = Inr w) gs scores"
      by (simp add: map_result_Inr_iff)
    then have "list_all2 evaluates gs scores"
    proof (rule list.rel_mono_strong)
      fix c w assume "c \<in> set gs" and "w \<in> set scores" and "recursive_helper c = Inr w"
      with "1.IH" [OF False refl gs] show "evaluates c w" by blast
    qed
    from evaluates_step [OF False gs this mx] show ?thesis .
  qed
qed

text \<open>The helpers agree wherever the recursive one returns a value.\<close>

lemma iterative_helper_eq:
  assumes "recursive_helper g = Inr v"
  shows "iterative_helper g = Some (Inr v)"
proof (cases "is_over g (current_state g)")
  case True
  with assms recursive_helper_over [OF True] iterative_helper_over [OF True] show ?thesis by simp
next
  case False
  from recursive_helper_cases [OF assms False] obtain gs scores where
    gs: "map_result (game_after g) (get_possible_moves (current_state g)) = Inr gs"
    and sc: "map_result recursive_helper gs = Inr scores"
    and mx: "py_max (map uminus scores) = Inr v"
    by blast
  from sc have "list_all2 (\<lambda>c w. recursive_helper c = Inr w) gs scores"
    by (simp add: map_result_Inr_iff)
  then have ev: "list_all2 evaluates gs scores"
    by (rule list_all2_mono) (rule recursive_helper_evaluates)
  let ?store = "[GameTree_init g]"
  have root: "0 < length ?store" "?store ! 0 = GameTree_init g" "score (?store ! 0) = None"
    by (simp_all add: GameTree_init_def)
  from first_pass [OF False gs ev mx root(1,2) root(1,3), of "[]"]
  obtain store2 where
    run2: "iterative_loop ?store [0] 0 = iterative_loop store2 [0, 0] 0"
    and len2: "length ?store \<le> length store2"
    and node2: "tree_game (store2 ! 0) = g" "score (store2 ! 0) = None" "children (store2 ! 0) \<noteq> []"
      "children_max store2 (children (store2 ! 0)) = Inr v"
    by auto
  let ?store3 = "store2[0 := (store2 ! 0)\<lparr>score := Some v\<rparr>]"
  have "loop_body store2 ([0] @ [0]) = Inr (?store3, [0])"
    using False node2 by (intro loop_body_score) simp_all
  with node2(2) have "iterative_loop store2 [0, 0] 0 = iterative_loop ?store3 [0] 0"
    using iterative_loop_step [of store2 0 "[0, 0]" ?store3 "[0]"] by simp
  also have "\<dots> = Some (Inr v)"
  proof (rule iterative_loop_scored)
    from len2 have "0 < length store2" by (cases store2) simp_all
    then show "score (?store3 ! 0) = Some v" by simp
  qed
  finally show ?thesis using run2 by (simp add: iterative_helper_def)
qed

lemma reachable_state_inv: "reachable s \<Longrightarrow> state_inv s"
proof (induction rule: reachable.induct)
  case (reachable_init b is_p1 g)
  from reachable_init(2) Stonehenge_init_large [of b is_p1] have "b < 6" by (cases "6 \<le> b") auto
  with reachable_init(1) have b: "b = 1 \<or> b = 2 \<or> b = 3 \<or> b = 4 \<or> b = 5" by arith
  from Stonehenge_init_turn [OF reachable_init(2)] obtain g' where
    g': "Stonehenge_init True b = Inr g'" "current_state g = (current_state g')\<lparr>p1_turn := is_p1\<rparr>"
    by blast
  from b init_ok_1 init_ok_2 init_ok_3 init_ok_4 init_ok_5 have "init_ok b" by auto
  with g'(1) have "state_inv (current_state g')" by (simp add: init_ok_def)
  with g'(2) show ?case by (simp add: state_inv_turn)
next
  case (reachable_move s m s')
  then show ?case using state_inv_make_move(2) by blast
qed

lemma count_tags:
  "\<forall>x \<in> set ls. is_tag x \<Longrightarrow> count_list ls ''1'' + count_list ls ''2'' = length ls"
  by (induction ls) (auto simp: is_tag_def)

lemma all_captured:
  assumes "family_ok F" and "cells F = []"
  shows "captured F = length F"
proof -
  have "\<not> is_int (ley_value ley)" if ley: "ley \<in> set F" for ley
  proof
    assume int: "is_int (ley_value ley)"
    from assms(1) ley have "line_ok ley" by (simp add: family_ok_def)
    with int have lt: "count_list (letters ley) ''1'' < line_threshold ley"
      "count_list (letters ley) ''2'' < line_threshold ley"
      by (simp_all add: line_ok_def)
    from assms(2) ley have "\<forall>x \<in> set (letters ley). is_tag x"
      by (auto simp: cells_def filter_empty_conv)
    from count_tags [OF this] lt show False
      by (simp add: line_threshold_def ceil_half_def)
  qed
  then show ?thesis by (simp add: captured_def)
qed

text \<open>A state of a game that is not over has a move.\<close>

lemma state_inv_has_move:
  assumes inv: "state_inv s" and live: "\<not> (win_threshold s \<le> p1_score s \<or> win_threshold s \<le> p2_score s)"
  shows "possible_moves s \<noteq> []"
proof
  assume "possible_moves s = []"
  with inv live have "cells (h_lines s) = []" "cells (r_lines s) = []" "cells (l_lines s) = []"
    by (simp_all add: state_inv_def)
  moreover from inv have "family_ok (h_lines s)" "family_ok (r_lines s)" "family_ok (l_lines s)"
    by (simp_all add: state_inv_def)
  ultimately have "captured (h_lines s) = length (h_lines s)" "captured (r_lines s) = length (r_lines s)"
    "captured (l_lines s) = length (l_lines s)"
    by (simp_all add: all_captured)
  with inv have "p1_score s + p2_score s = 3 * (b_length s + 1)"
    by (simp add: state_inv_def)
  with live show False by (simp add: win_threshold_def ceil_half_def) arith
qed

section \<open>Negamax\<close>

text \<open>
  The value of the specification, to compare the strategies with: a terminal game is
  worth \<open>-1\<close> to the player to move if it has a winner and \<open>0\<close> if it has none, any other
  game the largest of \<open>-1\<close> times the value of the game after each legal move.
  \<open>child\<close> is the game after a move; for a legal move it is the game \<open>make_move\<close> gives.
\<close>

definition child :: "Stonehenge \<Rightarrow> string \<Rightarrow> Stonehenge" where
  "child g m = (case game_after g m of Inl e \<Rightarrow> g | Inr g' \<Rightarrow> g')"

lemma child_shrinks:
  assumes "m \<in> set (possible_moves (current_state g))"
  shows "length (possible_moves (current_state (child g m))) < length (possible_moves (current_state g))"
proof -
  from make_move_succeeds [OF assms] obtain s' where s': "make_move (current_state g) m = Inr s'" ..
  then have "child g m = g\<lparr>current_state := s'\<rparr>" by (simp add: child_def game_after_def)
  with make_move_shrinks [OF s'] show ?thesis by simp
qed

function spec_value :: "Stonehenge \<Rightarrow> int" where
  "spec_value g =
     (if is_over g (current_state g) then
        (if is_winner g ''p1'' \<or> is_winner g ''p2'' then - 1 else 0)
      else Max (set (map (\<lambda>m. - 1 * spec_value (child g m)) (possible_moves (current_state g)))))"
  by pat_completeness auto
termination
  by (relation "measure (\<lambda>g. length (possible_moves (current_state g)))")
    (auto simp: child_shrinks)

declare spec_value.simps [simp del]

definition spec_best_move :: "Stonehenge \<Rightarrow> string option" where
  "spec_best_move g =
     (let moves = possible_moves (current_state g);
          best = Max (set (map (\<lambda>m. - 1 * spec_value (child g m)) moves))
      in find (\<lambda>m. - 1 * spec_value (child g m) = best) moves)"

lemma py_max_Max: "xs \<noteq> [] \<Longrightarrow> py_max xs = Inr (Max (set xs))"
proof (cases xs)
  case Nil
  assume "xs \<noteq> []"
  with Nil show ?thesis by simp
next
  case (Cons x rest)
  have "py_max (x # rest) = Inr (fold max rest x)" by simp
  also have "fold max rest x = Max (set (x # rest))" by (rule Max.set_eq_fold [symmetric])
  finally show ?thesis using Cons by simp
qed

lemma game_after_legal:
  assumes "state_inv (current_state g)" and "m \<in> set (possible_moves (current_state g))"
  shows "game_after g m = Inr (child g m)" and "state_inv (current_state (child g m))"
proof -
  from make_move_succeeds [OF assms(2)] obtain s' where s': "make_move (current_state g) m = Inr s'" ..
  then show "game_after g m = Inr (child g m)" by (simp add: child_def game_after_def)
  from s' have "child g m = g\<lparr>current_state := s'\<rparr>" by (simp add: child_def game_after_def)
  with state_inv_make_move(2) [OF assms(1) s'] show "state_inv (current_state (child g m))" by simp
qed

lemma map_result_map:
  "\<forall>x \<in> set xs. f x = Inr (h x) \<Longrightarrow> map_result f xs = Inr (map h xs)"
  by (induction xs) auto

text \<open>On the states of a game \<open>recursive_helper\<close> returns, and returns the value.\<close>

lemma recursive_helper_value:
  "state_inv (current_state g) \<Longrightarrow> recursive_helper g = Inr (spec_value g)"
proof (induction g rule: recursive_helper.induct)
  case (1 game)
  let ?s = "current_state game"
  let ?moves = "possible_moves ?s"
  show ?case
  proof (cases "is_over game ?s")
    case True
    then show ?thesis
      by (subst recursive_helper.simps, subst spec_value.simps) auto
  next
    case False
    then have "?moves \<noteq> []"
      using state_inv_has_move [OF "1.prems"] by (simp add: is_over_iff)
    have gs: "map_result (game_after game) (get_possible_moves ?s) = Inr (map (child game) ?moves)"
      unfolding get_possible_moves_def
      using game_after_legal(1) [OF "1.prems"] by (intro map_result_map) simp
    have "\<forall>c \<in> set (map (child game) ?moves). recursive_helper c = Inr (spec_value c)"
    proof
      fix c assume c: "c \<in> set (map (child game) ?moves)"
      then obtain m where "m \<in> set ?moves" "c = child game m" by auto
      with game_after_legal(2) [OF "1.prems"] have "state_inv (current_state c)" by simp
      with "1.IH" [OF False refl gs c] show "recursive_helper c = Inr (spec_value c)" .
    qed
    then have sc: "map_result recursive_helper (map (child game) ?moves) =
        Inr (map spec_value (map (child game) ?moves))"
      by (rule map_result_map)
    have e: "(*) (- 1 :: int) = uminus" by auto
    have "recursive_helper game =
        py_max (map (\<lambda>v. - 1 * v) (map spec_value (map (child game) ?moves)))"
      using False gs sc by (subst recursive_helper.simps) (simp add: Let_def e)
    also have "\<dots> = Inr (Max (set (map (\<lambda>v. - 1 * v) (map spec_value (map (child game) ?moves)))))"
      using \<open>?moves \<noteq> []\<close> by (intro py_max_Max) simp
    also have "map (\<lambda>v. - 1 * v) (map spec_value (map (child game) ?moves)) =
        map (\<lambda>m. - 1 * spec_value (child game m)) ?moves"
      by (simp add: comp_def)
    also have "Max (set (map (\<lambda>m. - 1 * spec_value (child game m)) ?moves)) = spec_value game"
      using False by (subst (2) spec_value.simps) simp
    finally show ?thesis .
  qed
qed

lemma recursive_moves_scores_value:
  assumes "state_inv (current_state g)" and "set ms \<subseteq> set (possible_moves (current_state g))"
  shows "recursive_moves_scores g ms = Inr (map (\<lambda>m. - 1 * spec_value (child g m)) ms)"
  using assms(2)
proof (induction ms)
  case Nil
  show ?case by simp
next
  case (Cons m ms)
  then have m: "m \<in> set (possible_moves (current_state g))" by simp
  from game_after_legal [OF assms(1) m] recursive_helper_value [of "child g m"] Cons
  show ?case by simp
qed

lemma iterative_moves_scores_eq:
  "recursive_moves_scores g ms = Inr vs \<Longrightarrow> iterative_moves_scores g ms = Some (Inr vs)"
proof (induction ms arbitrary: vs)
  case Nil
  then show ?case by simp
next
  case (Cons m ms)
  from Cons.prems obtain c v vs' where c: "game_after g m = Inr c"
    and v: "recursive_helper c = Inr v"
    and vs': "recursive_moves_scores g ms = Inr vs'" and vs: "vs = - 1 * v # vs'"
    by (auto split: sum.splits)
  from c iterative_helper_eq [OF v] Cons.IH [OF vs'] vs show ?case by simp
qed

lemma py_index_find:
  "py_index (map f xs) b = Inr i \<Longrightarrow> i < length xs \<and> find (\<lambda>x. f x = b) xs = Some (xs ! i)"
proof (induction xs arbitrary: i)
  case Nil
  then show ?case by simp
next
  case (Cons x xs)
  show ?case
  proof (cases "f x = b")
    case True
    with Cons.prems show ?thesis by simp
  next
    case False
    with Cons.prems obtain j where j: "py_index (map f xs) b = Inr j" "i = Suc j"
      by (auto split: sum.splits)
    from Cons.IH [OF j(1)] False j(2) show ?thesis by simp
  qed
qed

lemma py_index_member: "b \<in> set ys \<Longrightarrow> \<exists>i. py_index ys b = Inr i"
  by (induction ys) auto

lemma pick_move_first_max:
  assumes "xs \<noteq> []"
  shows "\<exists>m. pick_move xs (map f xs) = Inr m \<and> find (\<lambda>x. f x = Max (set (map f xs))) xs = Some m"
proof -
  let ?best = "Max (set (map f xs))"
  from assms have mx: "py_max (map f xs) = Inr ?best" by (intro py_max_Max) simp
  from assms have "?best \<in> set (map f xs)" by (intro Max_in) simp_all
  from py_index_member [OF this] obtain i where i: "py_index (map f xs) ?best = Inr i" ..
  from py_index_find [OF i] have "i < length xs" "find (\<lambda>x. f x = ?best) xs = Some (xs ! i)"
    by simp_all
  moreover from \<open>i < length xs\<close> have "py_get xs (int i) = Inr (xs ! i)" by (simp add: py_get_def)
  ultimately show ?thesis using mx i by (simp add: pick_move_def)
qed

lemma recursive_minimax_best:
  assumes inv: "state_inv (current_state g)" and live: "\<not> is_over g (current_state g)"
  shows "\<exists>m. recursive_minimax g = Inr m \<and> spec_best_move g = Some m \<and>
             iterative_minimax g = Some (Inr m)"
proof -
  let ?moves = "possible_moves (current_state g)"
  let ?f = "\<lambda>m. - 1 * spec_value (child g m)"
  from live have ne: "?moves \<noteq> []"
    using state_inv_has_move [OF inv] by (simp add: is_over_iff)
  have rs: "recursive_moves_scores g ?moves = Inr (map ?f ?moves)"
    by (rule recursive_moves_scores_value [OF inv]) simp
  from pick_move_first_max [OF ne, of ?f] obtain m where
    m: "pick_move ?moves (map ?f ?moves) = Inr m"
       "find (\<lambda>x. ?f x = Max (set (map ?f ?moves))) ?moves = Some m"
    by blast
  have "recursive_minimax g = Inr m"
    using rs m(1) by (simp add: recursive_minimax_def get_possible_moves_def)
  moreover have "spec_best_move g = Some m"
    using m(2) by (simp add: spec_best_move_def Let_def)
  moreover have "iterative_minimax g = Some (Inr m)"
    using iterative_moves_scores_eq [OF rs] m(1)
    by (simp add: iterative_minimax_def get_possible_moves_def)
  ultimately show ?thesis by blast
qed

lemma reachable_play: "reachable s \<Longrightarrow> play s ms = Inr s' \<Longrightarrow> reachable s'"
proof (induction ms arbitrary: s)
  case Nil
  then show ?case by simp
next
  case (Cons m ms)
  from Cons.prems(2) obtain s1 where s1: "make_move s m = Inr s1" and rest: "play s1 ms = Inr s'"
    by (auto split: sum.splits)
  from reachable_move [OF Cons.prems(1) s1] rest show ?case by (rule Cons.IH)
qed

text \<open>Two positions on the board of length 2: after the moves D, C, B and after D, A, G, B.\<close>

definition state2_DCB :: StonehengeState where
  "state2_DCB =
     \<lparr>p1_turn = False, b_length = 2, p1_score = 3, p2_score = 2,
      h_lines = [\<lparr>ley_value = StrVal ''1'', letters = [''A'', ''1'']\<rparr>,
                 \<lparr>ley_value = IntVal 2, letters = [''2'', ''1'', ''E'']\<rparr>,
                 \<lparr>ley_value = IntVal 3, letters = [''F'', ''G'']\<rparr>],
      r_lines = [\<lparr>ley_value = StrVal ''2'', letters = [''A'', ''2'']\<rparr>,
                 \<lparr>ley_value = StrVal ''1'', letters = [''1'', ''1'', ''F'']\<rparr>,
                 \<lparr>ley_value = IntVal 3, letters = [''E'', ''G'']\<rparr>],
      l_lines = [\<lparr>ley_value = StrVal ''1'', letters = [''E'', ''1'']\<rparr>,
                 \<lparr>ley_value = IntVal 2, letters = [''G'', ''1'', ''A'']\<rparr>,
                 \<lparr>ley_value = StrVal ''2'', letters = [''F'', ''2'']\<rparr>],
      possible_moves = [''A'', ''E'', ''F'', ''G'']\<rparr>"

definition state2_DAGB :: StonehengeState where
  "state2_DAGB =
     \<lparr>p1_turn = True, b_length = 2, p1_score = 3, p2_score = 3,
      h_lines = [\<lparr>ley_value = StrVal ''2'', letters = [''2'', ''2'']\<rparr>,
                 \<lparr>ley_value = IntVal 2, letters = [''C'', ''1'', ''E'']\<rparr>,
                 \<lparr>ley_value = StrVal ''1'', letters = [''F'', ''1'']\<rparr>],
      r_lines = [\<lparr>ley_value = StrVal ''2'', letters = [''2'', ''C'']\<rparr>,
                 \<lparr>ley_value = IntVal 2, letters = [''2'', ''1'', ''F'']\<rparr>,
                 \<lparr>ley_value = StrVal ''1'', letters = [''E'', ''1'']\<rparr>],
      l_lines = [\<lparr>ley_value = StrVal ''2'', letters = [''E'', ''2'']\<rparr>,
                 \<lparr>ley_value = StrVal ''1'', letters = [''1'', ''1'', ''2'']\<rparr>,
                 \<lparr>ley_value = IntVal 3, letters = [''F'', ''C'']\<rparr>],
      possible_moves = [''C'', ''E'', ''F'']\<rparr>"

lemma play_DCB: "play state2 [''D'', ''C'', ''B''] = Inr state2_DCB"
  by code_simp

lemma play_DAGB: "play state2 [''D'', ''A'', ''G'', ''B''] = Inr state2_DAGB"
  by code_simp

text \<open>
  Claim C1.  For a game whose current state is reachable and not terminal,
  \<open>recursive_minimax\<close> and \<open>iterative_minimax\<close> both return, and return the same move:
  the first move, in the order of \<open>get_possible_moves()\<close>, whose negated child value is
  the largest.  \<open>recursive_helper\<close> and \<open>iterative_helper\<close> both return, and return the
  same value for the game.
\<close>

theorem minimax_strategies_agree:
  assumes "reachable (current_state g)" and "\<not> is_over g (current_state g)"
  shows "\<exists>m v. recursive_minimax g = Inr m \<and> iterative_minimax g = Some (Inr m) \<and>
               spec_best_move g = Some m \<and>
               recursive_helper g = Inr v \<and> iterative_helper g = Some (Inr v)"
proof -
  from assms(1) have inv: "state_inv (current_state g)" by (rule reachable_state_inv)
  from recursive_minimax_best [OF inv assms(2)] obtain m where
    "recursive_minimax g = Inr m" "spec_best_move g = Some m" "iterative_minimax g = Some (Inr m)"
    by blast
  moreover from inv have v: "recursive_helper g = Inr (spec_value g)" by (rule recursive_helper_value)
  moreover from v have "iterative_helper g = Some (Inr (spec_value g))" by (rule iterative_helper_eq)
  ultimately show ?thesis by blast
qed

theorem minimax_strategies_agree_witness:
  "reachable state2_DCB \<and> \<not> is_over game2 state2_DCB \<and>
   recursive_minimax (game2\<lparr>current_state := state2_DCB\<rparr>) = Inr ''G'' \<and>
   iterative_minimax (game2\<lparr>current_state := state2_DCB\<rparr>) = Some (Inr ''G'') \<and>
   recursive_helper (game2\<lparr>current_state := state2_DCB\<rparr>) = Inr 1 \<and>
   iterative_helper (game2\<lparr>current_state := state2_DCB\<rparr>) = Some (Inr 1)"
proof -
  let ?g = "game2\<lparr>current_state := state2_DCB\<rparr>"
  have r: "reachable state2_DCB" using reachable_state2 play_DCB by (rule reachable_play)
  have live: "\<not> is_over game2 state2_DCB" by code_simp
  then have live': "\<not> is_over ?g (current_state ?g)" by (simp add: is_over_iff)
  have "recursive_minimax ?g = Inr ''G''" "recursive_helper ?g = Inr 1" by code_simp+
  with minimax_strategies_agree [of ?g] r live live' show ?thesis by auto
qed

text \<open>
  Claim C2.  On a game whose current state is reachable, \<open>recursive_helper\<close> returns the
  negamax value \<open>spec_value\<close> (\<open>-1\<close> for a terminal game with a winner, \<open>0\<close> for one
  without, otherwise the largest of \<open>-1\<close> times the children's values); if the game is
  not terminal, \<open>recursive_minimax\<close> returns the first legal move, in the order of
  \<open>get_possible_moves()\<close>, whose negated child value is that maximum.
\<close>

theorem recursive_minimax_negamax:
  assumes "reachable (current_state g)"
  shows "recursive_helper g = Inr (spec_value g) \<and>
         (\<not> is_over g (current_state g) \<longrightarrow>
            (\<exists>m. recursive_minimax g = Inr m \<and> spec_best_move g = Some m))"
proof -
  from assms have inv: "state_inv (current_state g)" by (rule reachable_state_inv)
  from recursive_helper_value [OF inv] recursive_minimax_best [OF inv] show ?thesis by blast
qed

theorem recursive_minimax_negamax_witness:
  "reachable state2_DAGB \<and> \<not> is_over game2 state2_DAGB \<and>
   recursive_helper (game2\<lparr>current_state := state2_DAGB\<rparr>) = Inr 1 \<and>
   spec_value (game2\<lparr>current_state := state2_DAGB\<rparr>) = 1 \<and>
   map (\<lambda>m. - 1 * spec_value (child (game2\<lparr>current_state := state2_DAGB\<rparr>) m))
     (possible_moves state2_DAGB) = [1, - 1, 1] \<and>
   recursive_minimax (game2\<lparr>current_state := state2_DAGB\<rparr>) = Inr ''C'' \<and>
   spec_best_move (game2\<lparr>current_state := state2_DAGB\<rparr>) = Some ''C''"
proof -
  let ?g = "game2\<lparr>current_state := state2_DAGB\<rparr>"
  have r: "reachable state2_DAGB" using reachable_state2 play_DAGB by (rule reachable_play)
  have live: "\<not> is_over game2 state2_DAGB" by code_simp
  then have live': "\<not> is_over ?g (current_state ?g)" by (simp add: is_over_iff)
  have c: "recursive_minimax ?g = Inr ''C''" "recursive_helper ?g = Inr 1"
    "map (\<lambda>m. - 1 * spec_value (child ?g m)) (possible_moves state2_DAGB) = [1, - 1, 1]"
    by code_simp+
  from recursive_minimax_negamax [of ?g] r live' c(1,2)
  have "spec_value ?g = 1" "spec_best_move ?g = Some ''C''" by auto
  with r live c show ?thesis by simp
qed

section \<open>The capture rule, on the states of a game\<close>

lemma one_line_holds_cell:
  assumes "distinct (cells F)" and "\<not> is_tag m" and "i < j" and "j < length F"
    and "m \<in> set (letters (F ! i))"
  shows "m \<notin> set (letters (F ! j))"
  using assms
proof (induction F arbitrary: i j)
  case Nil
  then show ?case by simp
next
  case (Cons ley rest)
  from Cons.prems(1) have d: "distinct (cells rest)" by (simp add: cells_Cons)
  from Cons.prems(3) obtain j' where j': "j = Suc j'" by (cases j) auto
  show ?case
  proof (cases i)
    case 0
    with Cons.prems(2,5) have "m \<in> set (filter (\<lambda>x. \<not> is_tag x) (letters ley))" by simp
    with Cons.prems(1) have "m \<notin> set (cells rest)" by (auto simp: cells_Cons)
    from not_in_cells [OF this Cons.prems(2), of "rest ! j'"] Cons.prems(4) j'
    show ?thesis by simp
  next
    case (Suc i')
    with Cons.prems j' Cons.IH [OF d Cons.prems(2), of i' j'] show ?thesis by simp
  qed
qed

lemma cell_in_one_line:
  assumes "distinct (cells F)" and "m \<in> set (cells F)"
  shows "\<exists>!i. i < length F \<and> m \<in> set (letters (F ! i))"
proof -
  from assms(2) have nt: "\<not> is_tag m" and "m \<in> set (concat (map letters F))"
    by (simp_all add: cells_def)
  then obtain ley where "ley \<in> set F" "m \<in> set (letters ley)" by auto
  then obtain i where i: "i < length F" "m \<in> set (letters (F ! i))"
    by (auto simp: in_set_conv_nth)
  show ?thesis
  proof (rule ex1I [of _ i])
    show "i < length F \<and> m \<in> set (letters (F ! i))" using i by simp
  next
    fix j assume j: "j < length F \<and> m \<in> set (letters (F ! j))"
    show "j = i"
    proof (rule ccontr)
      assume "j \<noteq> i"
      then consider "i < j" | "j < i" by arith
      then show False
      proof cases
        case 1
        from one_line_holds_cell [OF assms(1) nt 1] i j show False by simp
      next
        case 2
        from one_line_holds_cell [OF assms(1) nt 2] i j show False by simp
      qed
    qed
  qed
qed

lemma spec_claim_owner:
  assumes ok: "line_ok ley" and m: "\<not> is_tag m" and p: "is_tag p" and q: "is_tag q"
    and int: "is_int (ley_value ley)" and inl: "m \<in> set (letters ley)"
  shows "ley_value (spec_claim p m ley) = StrVal q \<longleftrightarrow>
         line_threshold ley \<le> count_list (letters (spec_claim p m ley)) q"
proof -
  from inl obtain i where i: "find_letter m (letters ley) = Some i"
    using find_letter_None [of m "letters ley"] by auto
  from m q have mq: "m \<noteq> q" by (auto simp: is_tag_def)
  note c = count_list_update [OF i mq, of p]
  from ok int q have lt: "count_list (letters ley) q < line_threshold ley"
    by (auto simp: line_ok_def is_tag_def)
  show ?thesis
  proof (cases "q = p")
    case True
    with int i show ?thesis by (cases "ley_value ley") (simp_all add: spec_claim_def Let_def)
  next
    case False
    with int i c lt show ?thesis
      by (cases "ley_value ley") (auto simp: spec_claim_def Let_def)
  qed
qed

lemma spec_claim_other:
  "m \<notin> set (letters ley) \<or> \<not> is_int (ley_value ley) \<Longrightarrow>
     ley_value (spec_claim p m ley) = ley_value ley"
  using spec_claim_absent [of m ley p] spec_claim_keeps_captured [of ley p m] by auto

text \<open>The state after the move \<open>'A'\<close> on the board of length 1.\<close>

definition state1_A :: StonehengeState where
  "state1_A =
     \<lparr>p1_turn = False, b_length = 1, p1_score = 3, p2_score = 0,
      h_lines = [\<lparr>ley_value = StrVal ''1'', letters = [''1'', ''B'']\<rparr>,
                 \<lparr>ley_value = IntVal 2, letters = [''C'']\<rparr>],
      r_lines = [\<lparr>ley_value = StrVal ''1'', letters = [''1'']\<rparr>,
                 \<lparr>ley_value = IntVal 2, letters = [''B'', ''C'']\<rparr>],
      l_lines = [\<lparr>ley_value = IntVal 1, letters = [''B'']\<rparr>,
                 \<lparr>ley_value = StrVal ''1'', letters = [''C'', ''1'']\<rparr>],
      possible_moves = []\<rparr>"

lemma make_move_state1_A: "make_move state1 ''A'' = Inr state1_A"
  by code_simp

text \<open>
  Claim C3, the scenario as the claim states it.  On the board of length 1 the cell
  \<open>'A'\<close> lies in three leylines, \<open>['A', 'B']\<close>, \<open>['A']\<close> and \<open>['C', 'A']\<close>, and player 1
  captures all three by claiming it: \<open>p1_score\<close> becomes 3, not 1, and the game is over.
\<close>

theorem capture_scenario_counterexample:
  "Stonehenge_init True 1 = Inr game1 \<and> current_state game1 = state1 \<and>
   make_move state1 ''A'' = Inr state1_A \<and>
   p1_score state1_A = 3 \<and> is_over game1 state1_A \<and>
   \<not> (p1_score state1_A = 1 \<and> \<not> is_over game1 state1_A)"
proof -
  have "is_over game1 state1_A" by code_simp
  with Stonehenge_init_1 make_move_state1_A show ?thesis
    by (simp add: game1_def state1_A_def)
qed

text \<open>
  Claim C3, amended.  For a reachable state and a legal move, \<open>make_move\<close> returns the
  state of the specification's rule (\<open>spec_apply\<close>).  In each of the three families
  exactly one leyline holds the played cell; if it was unclaimed, then after the move it
  is owned by a player exactly when that player's count of cells in it is at least
  \<open>ceil(len / 2)\<close>; every other leyline and every captured leyline keeps its value.  On
  the board of length 1, after player 1 claims \<open>'A'\<close> the three leylines that hold
  \<open>'A'\<close> are player 1's, \<open>p1_score\<close> is 3 and the game is over.
\<close>

theorem capture_rule:
  assumes "reachable s" and "m \<in> set (possible_moves s)"
  shows "\<exists>s'. make_move s m = Inr s' \<and> s' = spec_apply s m \<and>
           (\<forall>(F, F') \<in> {(h_lines s, h_lines s'), (r_lines s, r_lines s'), (l_lines s, l_lines s')}.
              length F' = length F \<and>
              (\<exists>!i. i < length F \<and> m \<in> set (letters (F ! i))) \<and>
              (\<forall>i < length F. \<forall>q \<in> {''1'', ''2''}.
                 is_int (ley_value (F ! i)) \<and> m \<in> set (letters (F ! i)) \<longrightarrow>
                   (ley_value (F' ! i) = StrVal q \<longleftrightarrow>
                    nat \<lceil>real (length (letters (F ! i))) / 2\<rceil> \<le> count_list (letters (F' ! i)) q)) \<and>
              (\<forall>i < length F. m \<notin> set (letters (F ! i)) \<or> \<not> is_int (ley_value (F ! i)) \<longrightarrow>
                 ley_value (F' ! i) = ley_value (F ! i))) \<and>
           make_move state1 ''A'' = Inr state1_A \<and> p1_score state1_A = 3 \<and>
           ley_value (h_lines state1_A ! 0) = StrVal ''1'' \<and>
           ley_value (r_lines state1_A ! 0) = StrVal ''1'' \<and>
           ley_value (l_lines state1_A ! 1) = StrVal ''1'' \<and> is_over game1 state1_A"
proof -
  let ?p = "if p1_turn s then ''1'' else ''2''"
  from assms(1) have inv: "state_inv s" by (rule reachable_state_inv)
  note nt = state_inv_not_tag [OF inv assms(2)]
  have p: "is_tag ?p" by (simp add: is_tag_def)
  from inv have fam: "family_ok (h_lines s)" "family_ok (r_lines s)" "family_ok (l_lines s)"
    by (simp_all add: state_inv_def)
  from inv assms(2) have sets: "m \<in> set (cells (h_lines s))" "m \<in> set (cells (r_lines s))"
    "m \<in> set (cells (l_lines s))"
    by (auto simp: state_inv_def split: if_splits)
  have mm: "make_move s m = Inr (spec_apply s m)"
    by (rule make_move_spec [OF assms(2) nt fam])
  have thr: "nat \<lceil>real (length (letters ley)) / 2\<rceil> = line_threshold ley" for ley
    by (simp add: line_threshold_def ceil_half_ceiling)
  have family: "length (map (spec_claim ?p m) F) = length F \<and>
              (\<exists>!i. i < length F \<and> m \<in> set (letters (F ! i))) \<and>
              (\<forall>i < length F. \<forall>q \<in> {''1'', ''2''}.
                 is_int (ley_value (F ! i)) \<and> m \<in> set (letters (F ! i)) \<longrightarrow>
                   (ley_value (map (spec_claim ?p m) F ! i) = StrVal q \<longleftrightarrow>
                    nat \<lceil>real (length (letters (F ! i))) / 2\<rceil>
                      \<le> count_list (letters (map (spec_claim ?p m) F ! i)) q)) \<and>
              (\<forall>i < length F. m \<notin> set (letters (F ! i)) \<or> \<not> is_int (ley_value (F ! i)) \<longrightarrow>
                 ley_value (map (spec_claim ?p m) F ! i) = ley_value (F ! i))"
    if ok: "family_ok F" and inF: "m \<in> set (cells F)" for F
  proof (intro conjI allI impI ballI)
    show "length (map (spec_claim ?p m) F) = length F" by simp
    from ok inF show "\<exists>!i. i < length F \<and> m \<in> set (letters (F ! i))"
      by (intro cell_in_one_line) (simp_all add: family_ok_def)
  next
    fix i q assume i: "i < length F" and q: "q \<in> {''1'', ''2''}"
      and h: "is_int (ley_value (F ! i)) \<and> m \<in> set (letters (F ! i))"
    from ok i have "line_ok (F ! i)" by (simp add: family_ok_def)
    moreover from q have "is_tag q" by (auto simp: is_tag_def)
    ultimately show "ley_value (map (spec_claim ?p m) F ! i) = StrVal q \<longleftrightarrow>
        nat \<lceil>real (length (letters (F ! i))) / 2\<rceil>
          \<le> count_list (letters (map (spec_claim ?p m) F ! i)) q"
      using spec_claim_owner [OF _ nt p, of "F ! i" q] h i by (simp add: thr)
  next
    fix i assume "i < length F" and "m \<notin> set (letters (F ! i)) \<or> \<not> is_int (ley_value (F ! i))"
    then show "ley_value (map (spec_claim ?p m) F ! i) = ley_value (F ! i)"
      using spec_claim_other [of m "F ! i" ?p] by simp
  qed
  have lines: "h_lines (spec_apply s m) = map (spec_claim ?p m) (h_lines s)"
    "r_lines (spec_apply s m) = map (spec_claim ?p m) (r_lines s)"
    "l_lines (spec_apply s m) = map (spec_claim ?p m) (l_lines s)"
    by (simp_all add: spec_apply_def Let_def)
  have over: "is_over game1 state1_A" by code_simp
  have ex: "p1_score state1_A = 3" "ley_value (h_lines state1_A ! 0) = StrVal ''1''"
    "ley_value (r_lines state1_A ! 0) = StrVal ''1''"
    "ley_value (l_lines state1_A ! 1) = StrVal ''1''"
    by (simp_all add: state1_A_def)
  show ?thesis
    using mm family [OF fam(1) sets(1)] family [OF fam(2) sets(2)] family [OF fam(3) sets(3)]
      make_move_state1_A over ex
    unfolding lines [symmetric]
    by (intro exI [of _ "spec_apply s m"]) simp
qed


theorem capture_rule_witness:
  "reachable state2 \<and> ''A'' \<in> set (possible_moves state2) \<and>
   (\<exists>s'. make_move state2 ''A'' = Inr s' \<and> s' = spec_apply state2 ''A'' \<and>
         letters (h_lines s' ! 0) = [''1'', ''B''] \<and> ley_value (h_lines s' ! 0) = StrVal ''1'' \<and>
         letters (l_lines s' ! 1) = [''G'', ''D'', ''1''] \<and> ley_value (l_lines s' ! 1) = IntVal 2 \<and>
         p1_score s' = 2 \<and> p2_score s' = 0)"
proof -
  have m: "''A'' \<in> set (possible_moves state2)" by (simp add: state2_def)
  from capture_rule [OF reachable_state2 m] obtain s' where
    s': "make_move state2 ''A'' = Inr s'" "s' = spec_apply state2 ''A''"
    by blast
  have "letters (h_lines (spec_apply state2 ''A'') ! 0) = [''1'', ''B'']"
    "ley_value (h_lines (spec_apply state2 ''A'') ! 0) = StrVal ''1''"
    "letters (l_lines (spec_apply state2 ''A'') ! 1) = [''G'', ''D'', ''1'']"
    "ley_value (l_lines (spec_apply state2 ''A'') ! 1) = IntVal 2"
    "p1_score (spec_apply state2 ''A'') = 2" "p2_score (spec_apply state2 ''A'') = 0"
    by code_simp+
  with s' reachable_state2 m show ?thesis by simp
qed

section \<open>Cells and moves\<close>

text \<open>The cells that are claimed: the letters of the rows that are a player's tag.\<close>

definition claimed_cells :: "StonehengeState \<Rightarrow> nat" where
  "claimed_cells s = length (filter is_tag (concat (map letters (h_lines s))))"

lemma reachable_state1_A: "reachable state1_A"
  using reachable_state1 make_move_state1_A by (rule reachable_move)

text \<open>
  Claim C6, as stated for all states.  The state after \<open>'A'\<close> on the board of length 1
  is terminal: its moves were emptied, one cell is claimed, the board has three cells.
\<close>

theorem moves_plus_claimed_counterexample:
  "reachable state1_A \<and> length (possible_moves state1_A) = 0 \<and> claimed_cells state1_A = 1 \<and>
   (b_length state1_A * b_length state1_A + 5 * b_length state1_A) div 2 = 3 \<and>
   int (length (possible_moves state1_A) + claimed_cells state1_A)
     \<noteq> (b_length state1_A * b_length state1_A + 5 * b_length state1_A) div 2"
proof -
  have "claimed_cells state1_A = 1" by code_simp
  with reachable_state1_A show ?thesis by (simp add: state1_A_def)
qed

text \<open>
  Claim C6, amended.  For a reachable state that is not terminal, the number of possible
  moves plus the number of claimed cells is the number of cells of the board,
  \<open>(b_length^2 + 5 * b_length) / 2\<close>.
\<close>

theorem moves_plus_claimed:
  assumes "reachable s" and "\<not> is_over g s"
  shows "int (length (possible_moves s) + claimed_cells s)
           = (b_length s * b_length s + 5 * b_length s) div 2"
proof -
  from assms(1) have inv: "state_inv s" by (rule reachable_state_inv)
  let ?all = "concat (map letters (h_lines s))"
  from inv assms(2) have "set (cells (h_lines s)) = set (possible_moves s)"
    by (simp add: state_inv_def is_over_iff)
  moreover from inv have "distinct (cells (h_lines s))" "distinct (possible_moves s)"
    by (simp_all add: state_inv_def family_ok_def)
  ultimately have "length (possible_moves s) = length (cells (h_lines s))"
    by (metis distinct_card)
  moreover have "length (filter is_tag ?all) + length (filter (\<lambda>x. \<not> is_tag x) ?all) = length ?all"
    by (rule sum_length_filter_compl)
  moreover from inv have "int (length ?all) = (b_length s * b_length s + 5 * b_length s) div 2"
    by (simp add: state_inv_def)
  ultimately show ?thesis by (simp add: claimed_cells_def cells_def)
qed

theorem moves_plus_claimed_witness:
  "reachable state2_DCB \<and> \<not> is_over game2 state2_DCB \<and>
   length (possible_moves state2_DCB) = 4 \<and> claimed_cells state2_DCB = 3 \<and>
   (b_length state2_DCB * b_length state2_DCB + 5 * b_length state2_DCB) div 2 = 7"
proof -
  have r: "reachable state2_DCB" using reachable_state2 play_DCB by (rule reachable_play)
  have live: "\<not> is_over game2 state2_DCB" by code_simp
  have "length (possible_moves state2_DCB) = 4" "b_length state2_DCB = 2"
    by (simp_all add: state2_DCB_def)
  with moves_plus_claimed [OF r live] r live show ?thesis by simp
qed

section \<open>make\_move over a store of objects\<close>

text \<open>
  To say that \<open>make_move\<close> leaves the receiver alone and shares nothing with it, the
  objects are put in a store: the lists of letters, the lists of leylines, the leylines
  and the states, each at an address (its position in the store); a leyline refers to
  its list of letters, a state to its three lists of leylines and to its list of moves.
  A new object is appended to the store.  An address that holds no object of the kind
  the code expects is an error of the model (TypeError).
\<close>

datatype obj =
    StrList "string list"
  | LeyList "nat list"
  | LeyObj ley_val nat
  | StateObj bool int int int nat nat nat nat

type_synonym heap = "obj list"

definition get_letters :: "heap \<Rightarrow> nat \<Rightarrow> error + string list" where
  "get_letters h a =
     (if a < length h then (case h ! a of StrList xs \<Rightarrow> Inr xs | _ \<Rightarrow> Inl TypeError)
      else Inl TypeError)"

definition get_lines :: "heap \<Rightarrow> nat \<Rightarrow> error + nat list" where
  "get_lines h a =
     (if a < length h then (case h ! a of LeyList rs \<Rightarrow> Inr rs | _ \<Rightarrow> Inl TypeError)
      else Inl TypeError)"

definition get_leyline :: "heap \<Rightarrow> nat \<Rightarrow> error + (ley_val \<times> nat)" where
  "get_leyline h a =
     (if a < length h then (case h ! a of LeyObj v la \<Rightarrow> Inr (v, la) | _ \<Rightarrow> Inl TypeError)
      else Inl TypeError)"

text \<open>
  \<open>copy.deepcopy\<close> of a list of leylines.  The memo maps the address of an object
  already copied to the address of its copy, so that what is shared in the original is
  shared in the copy; a new object enters the memo before its parts are copied.
\<close>

definition deepcopy_letters ::
  "heap \<Rightarrow> (nat \<times> nat) list \<Rightarrow> nat \<Rightarrow> error + (heap \<times> (nat \<times> nat) list \<times> nat)" where
  "deepcopy_letters h memo a =
     (case map_of memo a of
        Some a' \<Rightarrow> Inr (h, memo, a')
      | None \<Rightarrow>
          (case get_letters h a of
             Inl e \<Rightarrow> Inl e
           | Inr xs \<Rightarrow> Inr (h @ [StrList xs], (a, length h) # memo, length h)))"

definition deepcopy_leyline ::
  "heap \<Rightarrow> (nat \<times> nat) list \<Rightarrow> nat \<Rightarrow> error + (heap \<times> (nat \<times> nat) list \<times> nat)" where
  "deepcopy_leyline h memo a =
     (case map_of memo a of
        Some a' \<Rightarrow> Inr (h, memo, a')
      | None \<Rightarrow>
          (case get_leyline h a of
             Inl e \<Rightarrow> Inl e
           | Inr (v, la) \<Rightarrow>
               (let a' = length h
                in case deepcopy_letters (h @ [LeyObj v la]) ((a, a') # memo) la of
                     Inl e \<Rightarrow> Inl e
                   | Inr (h', memo', la') \<Rightarrow> Inr (h'[a' := LeyObj v la'], memo', a'))))"

fun deepcopy_elems ::
  "heap \<Rightarrow> (nat \<times> nat) list \<Rightarrow> nat \<Rightarrow> nat list \<Rightarrow> error + heap" where
  "deepcopy_elems h memo y [] = Inr h"
| "deepcopy_elems h memo y (a # rest) =
     (case deepcopy_leyline h memo a of
        Inl e \<Rightarrow> Inl e
      | Inr (h', memo', a') \<Rightarrow>
          (case get_lines h' y of
             Inl e \<Rightarrow> Inl e
           | Inr rs \<Rightarrow> deepcopy_elems (h'[y := LeyList (rs @ [a'])]) memo' y rest))"

definition deepcopy_lines :: "heap \<Rightarrow> nat \<Rightarrow> error + (heap \<times> nat)" where
  "deepcopy_lines h a =
     (case get_lines h a of
        Inl e \<Rightarrow> Inl e
      | Inr rs \<Rightarrow>
          (let y = length h
           in case deepcopy_elems (h @ [LeyList []]) [(a, y)] y rs of
                Inl e \<Rightarrow> Inl e
              | Inr h' \<Rightarrow> Inr (h', y)))"

text \<open>\<open>change_leyline\<close> on the store: it writes the leyline \<open>ley\<close> and the state \<open>self\<close>.\<close>

definition add_score :: "heap \<Rightarrow> nat \<Rightarrow> bool \<Rightarrow> error + heap" where
  "add_score h self first =
     (if self < length h then
        (case h ! self of
           StateObj t b p1 p2 hl rl ll pm \<Rightarrow>
             Inr (h[self := (if first then StateObj t b (p1 + 1) p2 hl rl ll pm
                             else StateObj t b p1 (p2 + 1) hl rl ll pm)])
         | _ \<Rightarrow> Inl TypeError)
      else Inl TypeError)"

definition heap_capture :: "heap \<Rightarrow> nat \<Rightarrow> nat \<Rightarrow> string \<Rightarrow> error + heap" where
  "heap_capture h self ley player =
     (case get_leyline h ley of
        Inl e \<Rightarrow> Inl e
      | Inr (v, la) \<Rightarrow>
          (case get_letters h la of
             Inl e \<Rightarrow> Inl e
           | Inr xs \<Rightarrow>
               if count_list xs player \<ge> nat (ceil_half (int (length xs))) \<and> is_int v
               then add_score (h[ley := LeyObj (StrVal player) la]) self (player = ''1'')
               else Inr h))"

definition heap_change_leyline :: "heap \<Rightarrow> nat \<Rightarrow> nat \<Rightarrow> error + heap" where
  "heap_change_leyline h self ley =
     (case heap_capture h self ley ''1'' of
        Inl e \<Rightarrow> Inl e
      | Inr h1 \<Rightarrow> heap_capture h1 self ley ''2'')"

fun heap_change_letter_loop :: "heap \<Rightarrow> nat \<Rightarrow> string \<Rightarrow> string \<Rightarrow> nat list \<Rightarrow> error + heap" where
  "heap_change_letter_loop h self player move [] = Inr h"
| "heap_change_letter_loop h self player move (leyline # rest) =
     (case get_leyline h leyline of
        Inl e \<Rightarrow> Inl e
      | Inr (v, la) \<Rightarrow>
          (case get_letters h la of
             Inl e \<Rightarrow> Inl e
           | Inr xs \<Rightarrow>
               (case find_letter move xs of
                  Some i \<Rightarrow> heap_change_leyline (h[la := StrList (xs[i := player])]) self leyline
                | None \<Rightarrow> heap_change_letter_loop h self player move rest)))"

definition get_state :: "heap \<Rightarrow> nat \<Rightarrow> error + (bool \<times> int \<times> int \<times> int \<times> nat \<times> nat \<times> nat \<times> nat)" where
  "get_state h a =
     (if a < length h then
        (case h ! a of StateObj t b p1 p2 hl rl ll pm \<Rightarrow> Inr (t, b, p1, p2, hl, rl, ll, pm)
                     | _ \<Rightarrow> Inl TypeError)
      else Inl TypeError)"

definition heap_change_letter :: "heap \<Rightarrow> nat \<Rightarrow> string \<Rightarrow> nat \<Rightarrow> error + heap" where
  "heap_change_letter h self move line_list =
     (case get_state h self of
        Inl e \<Rightarrow> Inl e
      | Inr (t, b, p1, p2, hl, rl, ll, pm) \<Rightarrow>
          (case get_lines h line_list of
             Inl e \<Rightarrow> Inl e
           | Inr rs \<Rightarrow> heap_change_letter_loop h self (if t then ''1'' else ''2'') move rs))"

text \<open>\<open>xs[:]\<close> for a list of leylines and for a list of strings: a new list, the same elements.\<close>

definition copy_lines :: "heap \<Rightarrow> nat \<Rightarrow> error + (heap \<times> nat)" where
  "copy_lines h a = (case get_lines h a of Inl e \<Rightarrow> Inl e | Inr rs \<Rightarrow> Inr (h @ [LeyList rs], length h))"

definition copy_letters :: "heap \<Rightarrow> nat \<Rightarrow> error + (heap \<times> nat)" where
  "copy_letters h a = (case get_letters h a of Inl e \<Rightarrow> Inl e | Inr xs \<Rightarrow> Inr (h @ [StrList xs], length h))"

text \<open>\<open>ss.change_letter(move, ss.h_lines[:])\<close>, for the family at \<open>lines\<close>.\<close>

definition heap_change_family :: "heap \<Rightarrow> nat \<Rightarrow> string \<Rightarrow> nat \<Rightarrow> error + heap" where
  "heap_change_family h ss move lines =
     (case copy_lines h lines of
        Inl e \<Rightarrow> Inl e
      | Inr (h', line_list) \<Rightarrow> heap_change_letter h' ss move line_list)"

text \<open>The end of \<open>make_move\<close>, from \<open>moves = self.get_possible_moves()[:]\<close> on.\<close>

definition heap_set_moves :: "heap \<Rightarrow> nat \<Rightarrow> nat \<Rightarrow> string \<Rightarrow> error + heap" where
  "heap_set_moves h self ss move =
     (case get_state h self of
        Inl e \<Rightarrow> Inl e
      | Inr (t0, b0, p10, p20, hl0, rl0, ll0, pm0) \<Rightarrow>
          (case copy_letters h pm0 of
             Inl e \<Rightarrow> Inl e
           | Inr (h1, got) \<Rightarrow>
               (case copy_letters h1 got of
                  Inl e \<Rightarrow> Inl e
                | Inr (h2, moves) \<Rightarrow>
                    (case get_state h2 ss of
                       Inl e \<Rightarrow> Inl e
                     | Inr (t, b, p1, p2, hl, rl, ll, pm) \<Rightarrow>
                         (case get_letters h2 moves of
                            Inl e \<Rightarrow> Inl e
                          | Inr xs \<Rightarrow>
                              (case py_remove move xs of
                                 Inl e \<Rightarrow> Inl e
                               | Inr xs' \<Rightarrow>
                                   (let h3 = h2[moves := StrList xs'];
                                        threshold = ceil_half (3 * (b + 1))
                                    in if p1 \<ge> threshold \<or> p2 \<ge> threshold
                                       then Inr ((h3 @ [StrList []])
                                                   [ss := StateObj (\<not> t) b p1 p2 hl rl ll (length h3)])
                                       else Inr (h3[ss := StateObj (\<not> t) b p1 p2 hl rl ll moves]))))))))"

text \<open>
  \<open>make_move\<close> on the store: the address of the new state comes with the new store.
\<close>

definition heap_make_move :: "heap \<Rightarrow> nat \<Rightarrow> string \<Rightarrow> error + (heap \<times> nat)" where
  "heap_make_move h self move =
     (case get_state h self of
        Inl e \<Rightarrow> Inl e
      | Inr (t, b, p1, p2, hl, rl, ll, pm) \<Rightarrow>
          (case deepcopy_lines h hl of
             Inl e \<Rightarrow> Inl e
           | Inr (h1, h_lines') \<Rightarrow>
               (case deepcopy_lines h1 ll of
                  Inl e \<Rightarrow> Inl e
                | Inr (h2, l_lines') \<Rightarrow>
                    (case deepcopy_lines h2 rl of
                       Inl e \<Rightarrow> Inl e
                     | Inr (h3, r_lines') \<Rightarrow>
                         (let h4 = h3 @ [StrList (py_slice_to ALPHA ((b * b + 5 * b) div 2))];
                              ss = length h4;
                              h5 = h4 @ [StateObj t b p1 p2 h_lines' r_lines' l_lines' (length h3)]
                          in case heap_change_family h5 ss move h_lines' of
                               Inl e \<Rightarrow> Inl e
                             | Inr h6 \<Rightarrow>
                                 (case heap_change_family h6 ss move r_lines' of
                                    Inl e \<Rightarrow> Inl e
                                  | Inr h7 \<Rightarrow>
                                      (case heap_change_family h7 ss move l_lines' of
                                         Inl e \<Rightarrow> Inl e
                                       | Inr h8 \<Rightarrow>
                                           (case heap_set_moves h8 self ss move of
                                              Inl e \<Rightarrow> Inl e
                                            | Inr h9 \<Rightarrow> Inr (h9, ss)))))))))"

text \<open>Reading a state off the store, and putting one on it with no object shared.\<close>

definition read_leyline :: "heap \<Rightarrow> nat \<Rightarrow> error + Leyline" where
  "read_leyline h r =
     (case get_leyline h r of
        Inl e \<Rightarrow> Inl e
      | Inr (v, la) \<Rightarrow>
          (case get_letters h la of
             Inl e \<Rightarrow> Inl e
           | Inr xs \<Rightarrow> Inr \<lparr>ley_value = v, letters = xs\<rparr>))"

definition read_lines :: "heap \<Rightarrow> nat \<Rightarrow> error + Leyline list" where
  "read_lines h a =
     (case get_lines h a of
        Inl e \<Rightarrow> Inl e
      | Inr rs \<Rightarrow> map_result (read_leyline h) rs)"

definition read_state :: "heap \<Rightarrow> nat \<Rightarrow> error + StonehengeState" where
  "read_state h a =
     (case get_state h a of
        Inl e \<Rightarrow> Inl e
      | Inr (t, b, p1, p2, hl, rl, ll, pm) \<Rightarrow>
          (case read_lines h hl of
             Inl e \<Rightarrow> Inl e
           | Inr hls \<Rightarrow>
               (case read_lines h rl of
                  Inl e \<Rightarrow> Inl e
                | Inr rls \<Rightarrow>
                    (case read_lines h ll of
                       Inl e \<Rightarrow> Inl e
                     | Inr lls \<Rightarrow>
                         (case get_letters h pm of
                            Inl e \<Rightarrow> Inl e
                          | Inr ms \<Rightarrow>
                              Inr \<lparr>p1_turn = t, b_length = b, p1_score = p1, p2_score = p2,
                                   h_lines = hls, r_lines = rls, l_lines = lls,
                                   possible_moves = ms\<rparr>)))))"

fun store_lines_loop :: "heap \<Rightarrow> Leyline list \<Rightarrow> heap \<times> nat list" where
  "store_lines_loop h [] = (h, [])"
| "store_lines_loop h (ley # rest) =
     (let (h', rs) = store_lines_loop (h @ [StrList (letters ley), LeyObj (ley_value ley) (length h)]) rest
      in (h', Suc (length h) # rs))"

definition store_lines :: "heap \<Rightarrow> Leyline list \<Rightarrow> heap \<times> nat" where
  "store_lines h lines = (let (h', rs) = store_lines_loop h lines in (h' @ [LeyList rs], length h'))"

definition store_state :: "heap \<Rightarrow> StonehengeState \<Rightarrow> heap \<times> nat" where
  "store_state h s =
     (let (h1, hl) = store_lines h (h_lines s);
          (h2, rl) = store_lines h1 (r_lines s);
          (h3, ll) = store_lines h2 (l_lines s);
          h4 = h3 @ [StrList (possible_moves s)]
      in (h4 @ [StateObj (p1_turn s) (b_length s) (p1_score s) (p2_score s) hl rl ll (length h3)],
          length h4))"

subsection \<open>How the store changes\<close>

text \<open>
  \<open>fresh_ley n h r\<close>: at \<open>r\<close> there is a leyline whose list of letters lies at or above \<open>n\<close>;
  \<open>fresh_lines n h a\<close>: at \<open>a\<close> there is a list of such leylines, all at or above \<open>n\<close>.
  With \<open>n = 0\<close> they only say that the objects are of the right kinds.
\<close>

definition fresh_ley :: "nat \<Rightarrow> heap \<Rightarrow> nat \<Rightarrow> bool" where
  "fresh_ley n h r \<longleftrightarrow>
     n \<le> r \<and> (\<exists>v la xs. get_leyline h r = Inr (v, la) \<and> n \<le> la \<and> get_letters h la = Inr xs)"

definition fresh_lines :: "nat \<Rightarrow> heap \<Rightarrow> nat \<Rightarrow> bool" where
  "fresh_lines n h a \<longleftrightarrow>
     n \<le> a \<and> (\<exists>rs. get_lines h a = Inr rs \<and> (\<forall>r \<in> set rs. fresh_ley n h r))"

text \<open>What of an object stays when its content is written: its kind and its references.\<close>

fun shape :: "obj \<Rightarrow> obj" where
  "shape (StrList xs) = StrList []"
| "shape (LeyList rs) = LeyList rs"
| "shape (LeyObj v la) = LeyObj (IntVal 0) la"
| "shape (StateObj t b p1 p2 hl rl ll pm) = StateObj False 0 0 0 hl rl ll pm"

text \<open>
  \<open>evolves n h h'\<close>: the store \<open>h'\<close> has the objects of \<open>h\<close> and maybe more, each with the
  shape it had, and the objects below \<open>n\<close> are as they were.
\<close>

definition evolves :: "nat \<Rightarrow> heap \<Rightarrow> heap \<Rightarrow> bool" where
  "evolves n h h' \<longleftrightarrow>
     length h \<le> length h' \<and>
     (\<forall>a < length h. shape (h' ! a) = shape (h ! a)) \<and>
     (\<forall>a < length h. a < n \<longrightarrow> h' ! a = h ! a)"

lemma evolves_refl: "evolves n h h"
  by (simp add: evolves_def)

lemma evolves_trans: "evolves n h1 h2 \<Longrightarrow> evolves n h2 h3 \<Longrightarrow> evolves n h1 h3"
  by (auto simp: evolves_def)

lemma evolves_append: "evolves n h (h @ ext)"
  by (simp add: evolves_def nth_append)

lemma evolves_update:
  "a < length h \<Longrightarrow> n \<le> a \<Longrightarrow> shape x = shape (h ! a) \<Longrightarrow> evolves n h (h[a := x])"
  by (auto simp: evolves_def nth_list_update)

lemma evolves_weaken: "evolves n h h' \<Longrightarrow> k \<le> n \<Longrightarrow> evolves k h h'"
  by (auto simp: evolves_def)

lemma shape_StrList: "shape x = StrList [] \<longleftrightarrow> (\<exists>ys. x = StrList ys)"
  by (cases x) auto

lemma shape_LeyList: "shape x = LeyList rs \<longleftrightarrow> x = LeyList rs"
  by (cases x) auto

lemma shape_LeyObj: "shape x = LeyObj (IntVal 0) la \<longleftrightarrow> (\<exists>w. x = LeyObj w la)"
  by (cases x) auto

lemma shape_StateObj:
  "shape x = StateObj False 0 0 0 hl rl ll pm \<longleftrightarrow>
     (\<exists>t' b' p1' p2'. x = StateObj t' b' p1' p2' hl rl ll pm)"
  by (cases x) auto

lemma get_letters_Inr: "get_letters h a = Inr xs \<longleftrightarrow> a < length h \<and> h ! a = StrList xs"
  by (auto simp: get_letters_def split: obj.splits)

lemma get_lines_Inr: "get_lines h a = Inr rs \<longleftrightarrow> a < length h \<and> h ! a = LeyList rs"
  by (auto simp: get_lines_def split: obj.splits)

lemma get_leyline_Inr: "get_leyline h a = Inr (v, la) \<longleftrightarrow> a < length h \<and> h ! a = LeyObj v la"
  by (auto simp: get_leyline_def split: obj.splits)

lemma get_state_Inr:
  "get_state h a = Inr (t, b, p1, p2, hl, rl, ll, pm) \<longleftrightarrow>
     a < length h \<and> h ! a = StateObj t b p1 p2 hl rl ll pm"
  by (auto simp: get_state_def split: obj.splits)

lemma evolves_letters:
  assumes "evolves n h h'" and "get_letters h a = Inr xs"
  shows "\<exists>ys. get_letters h' a = Inr ys"
proof -
  from assms(2) have a: "a < length h" "h ! a = StrList xs" by (simp_all add: get_letters_Inr)
  with assms(1) have "shape (h' ! a) = shape (StrList xs)" "a < length h'"
    by (auto simp: evolves_def)
  then show ?thesis by (auto simp: shape_StrList get_letters_Inr)
qed

lemma evolves_lines:
  assumes "evolves n h h'" and "get_lines h a = Inr rs"
  shows "get_lines h' a = Inr rs"
proof -
  from assms(2) have a: "a < length h" "h ! a = LeyList rs" by (simp_all add: get_lines_Inr)
  with assms(1) have "shape (h' ! a) = shape (LeyList rs)" "a < length h'"
    by (auto simp: evolves_def)
  then show ?thesis by (simp add: shape_LeyList get_lines_Inr)
qed

lemma evolves_leyline:
  assumes "evolves n h h'" and "get_leyline h a = Inr (v, la)"
  shows "\<exists>w. get_leyline h' a = Inr (w, la)"
proof -
  from assms(2) have a: "a < length h" "h ! a = LeyObj v la" by (simp_all add: get_leyline_Inr)
  with assms(1) have "shape (h' ! a) = shape (LeyObj v la)" "a < length h'"
    by (auto simp: evolves_def)
  then show ?thesis by (auto simp: shape_LeyObj get_leyline_Inr)
qed

lemma evolves_state:
  assumes "evolves n h h'" and "get_state h a = Inr (t, b, p1, p2, hl, rl, ll, pm)"
  shows "\<exists>t' b' p1' p2'. get_state h' a = Inr (t', b', p1', p2', hl, rl, ll, pm)"
proof -
  from assms(2) have a: "a < length h" "h ! a = StateObj t b p1 p2 hl rl ll pm"
    by (simp_all add: get_state_Inr)
  with assms(1) have "shape (h' ! a) = shape (StateObj t b p1 p2 hl rl ll pm)" "a < length h'"
    by (auto simp: evolves_def)
  then show ?thesis by (auto simp: shape_StateObj get_state_Inr)
qed

lemma evolves_fresh_ley: "evolves k h h' \<Longrightarrow> fresh_ley n h r \<Longrightarrow> fresh_ley n h' r"
  unfolding fresh_ley_def using evolves_leyline evolves_letters by blast

lemma evolves_fresh_lines: "evolves k h h' \<Longrightarrow> fresh_lines n h a \<Longrightarrow> fresh_lines n h' a"
  unfolding fresh_lines_def using evolves_lines evolves_fresh_ley by blast

lemma fresh_ley_weaken: "fresh_ley n h r \<Longrightarrow> k \<le> n \<Longrightarrow> fresh_ley k h r"
  by (auto simp: fresh_ley_def)

lemma fresh_lines_weaken: "fresh_lines n h a \<Longrightarrow> k \<le> n \<Longrightarrow> fresh_lines k h a"
  by (auto simp: fresh_lines_def intro: fresh_ley_weaken)


subsection \<open>The deep copies are new objects\<close>

text \<open>
  The memo, while a list of an original store \<open>h0\<close> is copied into \<open>h\<close>: the copy of a
  leyline of \<open>h0\<close> is a leyline at or above \<open>n\<close> with its letters at or above \<open>n\<close>, the copy
  of a list of letters is a list of letters at or above \<open>n\<close>.
\<close>

definition memo_ok :: "nat \<Rightarrow> heap \<Rightarrow> heap \<Rightarrow> (nat \<times> nat) list \<Rightarrow> bool" where
  "memo_ok n h0 h memo \<longleftrightarrow>
     (\<forall>a a'. map_of memo a = Some a' \<longrightarrow>
        n \<le> a' \<and>
        (\<forall>v la. get_leyline h0 a = Inr (v, la) \<longrightarrow> fresh_ley n h a') \<and>
        (\<forall>xs. get_letters h0 a = Inr xs \<longrightarrow> (\<exists>ys. get_letters h a' = Inr ys)))"

lemma memo_okD:
  assumes "memo_ok n h0 h memo" and "map_of memo a = Some a'"
  shows "n \<le> a'"
    and "get_leyline h0 a = Inr (v, la) \<Longrightarrow> fresh_ley n h a'"
    and "get_letters h0 a = Inr xs \<Longrightarrow> \<exists>ys. get_letters h a' = Inr ys"
  using assms unfolding memo_ok_def by blast+

lemma memo_ok_evolves:
  "memo_ok n h0 h memo \<Longrightarrow> evolves k h h' \<Longrightarrow> memo_ok n h0 h' memo"
  unfolding memo_ok_def using evolves_fresh_ley evolves_letters by blast

lemma old_objects:
  assumes "evolves (length h0) h0 h" and "a < length h0"
  shows "h ! a = h0 ! a" and "a < length h"
  using assms by (auto simp: evolves_def)

lemma deepcopy_leyline_ok:
  assumes ev: "evolves (length h0) h0 h" and memo: "memo_ok (length h0) h0 h memo"
    and typed: "fresh_ley 0 h0 a"
  shows "\<exists>ext memo' a'. deepcopy_leyline h memo a = Inr (h @ ext, memo', a') \<and>
           memo_ok (length h0) h0 (h @ ext) memo' \<and> fresh_ley (length h0) (h @ ext) a'"
proof -
  let ?n = "length h0"
  from typed obtain v la xs where a0: "get_leyline h0 a = Inr (v, la)" and la0: "get_letters h0 la = Inr xs"
    by (auto simp: fresh_ley_def)
  then have a: "a < ?n" "h0 ! a = LeyObj v la" and la: "la < ?n" "h0 ! la = StrList xs"
    by (simp_all add: get_leyline_Inr get_letters_Inr)
  from old_objects [OF ev a(1)] a(2) have ha: "get_leyline h a = Inr (v, la)"
    by (simp add: get_leyline_Inr)
  from old_objects [OF ev la(1)] la(2) have hla: "get_letters h la = Inr xs" and lah: "la < length h"
    by (simp_all add: get_letters_Inr)
  from a la have ne: "la \<noteq> a" by auto
  from ev have len: "?n \<le> length h" by (simp add: evolves_def)
  show ?thesis
  proof (cases "map_of memo a")
    case (Some a')
    then have "deepcopy_leyline h memo a = Inr (h @ [], memo, a')"
      by (simp add: deepcopy_leyline_def)
    moreover from memo_okD(2) [OF memo Some a0] have "fresh_ley ?n (h @ []) a'" by simp
    moreover from memo have "memo_ok ?n h0 (h @ []) memo" by simp
    ultimately show ?thesis by blast
  next
    case None
    let ?a' = "length h"
    let ?memo1 = "(a, ?a') # memo"
    show ?thesis
    proof (cases "map_of memo la")
      case (Some la')
      from memo_okD(1) [OF memo Some] memo_okD(3) [OF memo Some la0] obtain ys where
        la': "?n \<le> la'" "get_letters h la' = Inr ys"
        by blast
      let ?h' = "h @ [LeyObj v la']"
      have run: "deepcopy_leyline h memo a = Inr (?h', ?memo1, ?a')"
        using None Some ha ne by (simp add: deepcopy_leyline_def deepcopy_letters_def Let_def)
      from la'(2) have "get_letters ?h' la' = Inr ys"
        by (simp add: get_letters_Inr nth_append)
      with la'(1) len have fresh: "fresh_ley ?n ?h' ?a'"
        by (auto simp: fresh_ley_def get_leyline_Inr)
      have "memo_ok ?n h0 ?h' memo" using memo evolves_append by (rule memo_ok_evolves)
      with fresh a len have "memo_ok ?n h0 ?h' ?memo1"
        by (auto simp: memo_ok_def get_letters_Inr)
      with run fresh show ?thesis by blast
    next
      case None': None
      let ?h' = "h @ [LeyObj v (Suc ?a'), StrList xs]"
      let ?memo2 = "(la, Suc ?a') # ?memo1"
      have "get_letters (h @ [LeyObj v la]) la = Inr xs"
        using hla by (simp add: get_letters_Inr nth_append)
      then have run: "deepcopy_leyline h memo a = Inr (?h', ?memo2, ?a')"
        using None None' ha ne by (simp add: deepcopy_leyline_def deepcopy_letters_def Let_def)
      have fresh: "fresh_ley ?n ?h' ?a'"
        using len by (auto simp: fresh_ley_def get_leyline_Inr get_letters_Inr nth_append)
      have "memo_ok ?n h0 ?h' memo" using memo evolves_append by (rule memo_ok_evolves)
      with fresh a la len have "memo_ok ?n h0 ?h' ?memo2"
        by (auto simp: memo_ok_def get_letters_Inr get_leyline_Inr nth_append)
      with run fresh show ?thesis by blast
    qed
  qed
qed

lemma update_lines_leyline:
  "get_lines h y = Inr cur \<Longrightarrow> get_leyline (h[y := LeyList zs]) r = get_leyline h r"
  by (auto simp: get_lines_Inr get_leyline_def nth_list_update)

lemma update_lines_letters:
  "get_lines h y = Inr cur \<Longrightarrow> get_letters (h[y := LeyList zs]) r = get_letters h r"
  by (auto simp: get_lines_Inr get_letters_def nth_list_update)

lemma update_lines_fresh_ley:
  "get_lines h y = Inr cur \<Longrightarrow> fresh_ley n (h[y := LeyList zs]) r = fresh_ley n h r"
  by (simp add: fresh_ley_def update_lines_leyline update_lines_letters)

lemma update_lines_memo_ok:
  "get_lines h y = Inr cur \<Longrightarrow> memo_ok n h0 (h[y := LeyList zs]) memo = memo_ok n h0 h memo"
  by (simp add: memo_ok_def update_lines_fresh_ley update_lines_letters)

lemma deepcopy_elems_ok:
  assumes "evolves (length h0) h0 h" and "memo_ok (length h0) h0 h memo"
    and "\<forall>a \<in> set rest. fresh_ley 0 h0 a"
    and "length h0 \<le> y" and "get_lines h y = Inr cur" and "\<forall>r \<in> set cur. fresh_ley (length h0) h r"
  shows "\<exists>h' rs. deepcopy_elems h memo y rest = Inr h' \<and> evolves (length h0) h0 h' \<and>
           length h \<le> length h' \<and> get_lines h' y = Inr rs \<and>
           (\<forall>r \<in> set rs. fresh_ley (length h0) h' r)"
  using assms
proof (induction rest arbitrary: h memo cur)
  case Nil
  then show ?case by auto
next
  case (Cons a rest)
  let ?n = "length h0"
  from Cons.prems(3) have typed: "fresh_ley 0 h0 a" by simp
  from deepcopy_leyline_ok [OF Cons.prems(1,2) typed] obtain ext memo' a' where
    run: "deepcopy_leyline h memo a = Inr (h @ ext, memo', a')"
    and memo': "memo_ok ?n h0 (h @ ext) memo'" and fresh: "fresh_ley ?n (h @ ext) a'"
    by blast
  let ?h1 = "h @ ext"
  have y1: "get_lines ?h1 y = Inr cur"
    using Cons.prems(5) by (simp add: get_lines_Inr nth_append)
  let ?h2 = "?h1[y := LeyList (cur @ [a'])]"
  have step: "deepcopy_elems h memo y (a # rest) = deepcopy_elems ?h2 memo' y rest"
    using run y1 by simp
  have ev2: "evolves ?n h0 ?h2"
    using Cons.prems(1,4) by (auto simp: evolves_def nth_append nth_list_update)
  have memo2: "memo_ok ?n h0 ?h2 memo'"
    using memo' by (simp add: update_lines_memo_ok [OF y1])
  have y2: "get_lines ?h2 y = Inr (cur @ [a'])"
    using y1 by (simp add: get_lines_Inr)
  have "\<forall>r \<in> set cur. fresh_ley ?n ?h1 r"
    using Cons.prems(6) evolves_append evolves_fresh_ley by blast
  with fresh have cur2: "\<forall>r \<in> set (cur @ [a']). fresh_ley ?n ?h2 r"
    by (simp add: update_lines_fresh_ley [OF y1])
  from Cons.prems(3) have rest: "\<forall>a \<in> set rest. fresh_ley 0 h0 a" by simp
  from Cons.IH [OF ev2 memo2 rest Cons.prems(4) y2 cur2] step show ?case by auto
qed

lemma deepcopy_lines_ok:
  assumes "fresh_lines 0 h a"
  shows "\<exists>h'. deepcopy_lines h a = Inr (h', length h) \<and> evolves (length h) h h' \<and>
           length h < length h' \<and> fresh_lines (length h) h' (length h)"
proof -
  let ?n = "length h"
  from assms obtain rs where rs: "get_lines h a = Inr rs" and typed: "\<forall>r \<in> set rs. fresh_ley 0 h r"
    by (auto simp: fresh_lines_def)
  let ?h1 = "h @ [LeyList []]"
  have ev: "evolves ?n h ?h1" by (rule evolves_append)
  have y: "get_lines ?h1 ?n = Inr []" by (simp add: get_lines_Inr)
  from rs have "memo_ok ?n h ?h1 [(a, ?n)]"
    by (auto simp: memo_ok_def get_lines_Inr get_leyline_Inr get_letters_Inr)
  from deepcopy_elems_ok [OF ev this typed _ y] obtain h' rs' where
    "deepcopy_elems ?h1 [(a, ?n)] ?n rs = Inr h'" "evolves ?n h h'" "length ?h1 \<le> length h'"
    "get_lines h' ?n = Inr rs'" "\<forall>r \<in> set rs'. fresh_ley ?n h' r"
    by auto
  with rs show ?thesis
    by (auto simp: deepcopy_lines_def Let_def fresh_lines_def)
qed

subsection \<open>The letter is changed in new objects only\<close>

definition state_at :: "heap \<Rightarrow> nat \<Rightarrow> nat \<times> nat \<times> nat \<times> nat \<Rightarrow> bool" where
  "state_at h ss refs \<longleftrightarrow>
     (\<exists>t b p1 p2. get_state h ss = Inr (t, b, p1, p2, refs))"

lemma evolves_state_at: "evolves n h h' \<Longrightarrow> state_at h ss refs \<Longrightarrow> state_at h' ss refs"
  unfolding state_at_def by (cases refs) (metis evolves_state prod.collapse)

lemma add_score_ok:
  assumes "state_at h ss refs" and "n \<le> ss"
  shows "\<exists>h'. add_score h ss first = Inr h' \<and> evolves n h h'"
proof -
  obtain hl rl ll pm where refs: "refs = (hl, rl, ll, pm)" by (cases refs) auto
  with assms(1) obtain t b p1 p2 where "get_state h ss = Inr (t, b, p1, p2, hl, rl, ll, pm)"
    by (auto simp: state_at_def)
  then have ss: "ss < length h" "h ! ss = StateObj t b p1 p2 hl rl ll pm"
    by (simp_all add: get_state_Inr)
  then show ?thesis
    using assms(2) by (auto simp: add_score_def intro!: evolves_update)
qed

lemma heap_capture_ok:
  assumes "fresh_ley n h r" and "state_at h ss refs" and "n \<le> ss"
  shows "\<exists>h'. heap_capture h ss r player = Inr h' \<and> evolves n h h'"
proof -
  from assms(1) obtain v la xs where r: "get_leyline h r = Inr (v, la)" "n \<le> r"
    and la: "get_letters h la = Inr xs"
    by (auto simp: fresh_ley_def)
  show ?thesis
  proof (cases "count_list xs player \<ge> nat (ceil_half (int (length xs))) \<and> is_int v")
    case False
    with r la have "heap_capture h ss r player = Inr h" by (auto simp: heap_capture_def)
    then show ?thesis using evolves_refl by blast
  next
    case True
    let ?h1 = "h[r := LeyObj (StrVal player) la]"
    from r have ev1: "evolves n h ?h1"
      by (intro evolves_update) (simp_all add: get_leyline_Inr)
    from add_score_ok [OF evolves_state_at [OF ev1 assms(2)] assms(3), of "player = ''1''"]
    obtain h' where "add_score ?h1 ss (player = ''1'') = Inr h'" "evolves n ?h1 h'" by blast
    with True r la ev1 show ?thesis
      by (auto simp: heap_capture_def intro: evolves_trans)
  qed
qed

lemma heap_change_leyline_ok:
  assumes "fresh_ley n h r" and "state_at h ss refs" and "n \<le> ss"
  shows "\<exists>h'. heap_change_leyline h ss r = Inr h' \<and> evolves n h h'"
proof -
  from heap_capture_ok [OF assms, of "''1''"] obtain h1 where
    1: "heap_capture h ss r ''1'' = Inr h1" "evolves n h h1" by blast
  from heap_capture_ok [OF evolves_fresh_ley [OF 1(2) assms(1)] evolves_state_at [OF 1(2) assms(2)]
      assms(3), of "''2''"]
  obtain h2 where "heap_capture h1 ss r ''2'' = Inr h2" "evolves n h1 h2" by blast
  with 1 show ?thesis by (auto simp: heap_change_leyline_def intro: evolves_trans)
qed

lemma heap_change_letter_loop_ok:
  assumes "\<forall>r \<in> set rs. fresh_ley n h r" and "state_at h ss refs" and "n \<le> ss"
  shows "\<exists>h'. heap_change_letter_loop h ss player move rs = Inr h' \<and> evolves n h h'"
  using assms(1)
proof (induction rs)
  case Nil
  show ?case using evolves_refl by auto
next
  case (Cons r rest)
  then have fr: "fresh_ley n h r" by simp
  then obtain v la xs where r: "get_leyline h r = Inr (v, la)"
    and la: "get_letters h la = Inr xs" "n \<le> la"
    by (auto simp: fresh_ley_def)
  show ?case
  proof (cases "find_letter move xs")
    case None
    with r la Cons show ?thesis by simp
  next
    case (Some i)
    let ?h1 = "h[la := StrList (xs[i := player])]"
    from la have ev1: "evolves n h ?h1"
      by (intro evolves_update) (simp_all add: get_letters_Inr)
    from heap_change_leyline_ok [OF evolves_fresh_ley [OF ev1 fr] evolves_state_at [OF ev1 assms(2)] assms(3)]
    obtain h' where "heap_change_leyline ?h1 ss r = Inr h'" "evolves n ?h1 h'" by blast
    with Some r la ev1 show ?thesis by (auto intro: evolves_trans)
  qed
qed

lemma heap_change_family_ok:
  assumes "fresh_lines n h a" and "state_at h ss refs" and "n \<le> ss"
  shows "\<exists>h'. heap_change_family h ss move a = Inr h' \<and> evolves n h h'"
proof -
  from assms(1) obtain rs where rs: "get_lines h a = Inr rs" and fr: "\<forall>r \<in> set rs. fresh_ley n h r"
    by (auto simp: fresh_lines_def)
  let ?h1 = "h @ [LeyList rs]"
  have ev1: "evolves n h ?h1" by (rule evolves_append)
  from evolves_state_at [OF ev1 assms(2)] obtain t b p1 p2 where
    st: "get_state ?h1 ss = Inr (t, b, p1, p2, refs)"
    by (auto simp: state_at_def)
  have copy: "get_lines ?h1 (length h) = Inr rs" by (simp add: get_lines_Inr)
  from fr have "\<forall>r \<in> set rs. fresh_ley n ?h1 r" using ev1 evolves_fresh_ley by blast
  from heap_change_letter_loop_ok [OF this evolves_state_at [OF ev1 assms(2)] assms(3),
      of "if t then ''1'' else ''2''" move]
  obtain h' where "heap_change_letter_loop ?h1 ss (if t then ''1'' else ''2'') move rs = Inr h'"
    "evolves n ?h1 h'" by blast
  with rs st copy ev1 show ?thesis
    by (cases refs) (auto simp: heap_change_family_def copy_lines_def heap_change_letter_def
        intro: evolves_trans)
qed

subsection \<open>The moves of the new state are a new list\<close>

lemma heap_set_moves_ok:
  assumes self: "get_state h self = Inr (t0, b0, p10, p20, hl0, rl0, ll0, pm0)"
    and pm: "get_letters h pm0 = Inr ms" and m: "move \<in> set ms"
    and ss: "state_at h ss (hl, rl, ll, pm)"
  shows "\<exists>h' pm'. heap_set_moves h self ss move = Inr h' \<and> length h \<le> length h' \<and>
           (\<forall>a < length h. a \<noteq> ss \<longrightarrow> h' ! a = h ! a) \<and>
           state_at h' ss (hl, rl, ll, pm') \<and> length h \<le> pm' \<and>
           (\<exists>xs. get_letters h' pm' = Inr xs)"
proof -
  let ?h1 = "h @ [StrList ms]"
  let ?h2 = "?h1 @ [StrList ms]"
  let ?moves = "Suc (length h)"
  let ?h3 = "?h2[?moves := StrList (remove1 move ms)]"
  from ss obtain t b p1 p2 where st: "get_state h ss = Inr (t, b, p1, p2, hl, rl, ll, pm)"
    by (auto simp: state_at_def)
  then have ssl: "ss < length h" and ssv: "h ! ss = StateObj t b p1 p2 hl rl ll pm"
    by (simp_all add: get_state_Inr)
  have c1: "copy_letters h pm0 = Inr (?h1, length h)" using pm by (simp add: copy_letters_def)
  have c2: "copy_letters ?h1 (length h) = Inr (?h2, ?moves)"
    by (simp add: copy_letters_def get_letters_def)
  have st2: "get_state ?h2 ss = Inr (t, b, p1, p2, hl, rl, ll, pm)"
    using ssl ssv by (simp add: get_state_Inr nth_append)
  have g2: "get_letters ?h2 ?moves = Inr ms" by (simp add: get_letters_Inr nth_append)
  have rm: "py_remove move ms = Inr (remove1 move ms)" using m by (simp add: py_remove_def)
  let ?thr = "ceil_half (3 * (b + 1))"
  show ?thesis
  proof (cases "p1 \<ge> ?thr \<or> p2 \<ge> ?thr")
    case True
    let ?h' = "(?h3 @ [StrList []])[ss := StateObj (\<not> t) b p1 p2 hl rl ll (length ?h3)]"
    have "heap_set_moves h self ss move = Inr ?h'"
      using self c1 c2 st2 g2 rm True by (simp add: heap_set_moves_def Let_def)
    moreover have "\<forall>a < length h. a \<noteq> ss \<longrightarrow> ?h' ! a = h ! a"
      by (simp add: nth_append nth_list_update)
    moreover have "state_at ?h' ss (hl, rl, ll, length ?h3)"
      using ssl by (simp add: state_at_def get_state_Inr)
    moreover have "get_letters ?h' (length ?h3) = Inr []"
      using ssl by (simp add: get_letters_Inr nth_append nth_list_update)
    ultimately show ?thesis
      by (intro exI [of _ ?h'] exI [of _ "length ?h3"]) simp
  next
    case False
    let ?h' = "?h3[ss := StateObj (\<not> t) b p1 p2 hl rl ll ?moves]"
    have "heap_set_moves h self ss move = Inr ?h'"
      using self c1 c2 st2 g2 rm False by (simp add: heap_set_moves_def Let_def)
    moreover have "\<forall>a < length h. a \<noteq> ss \<longrightarrow> ?h' ! a = h ! a"
      by (simp add: nth_append nth_list_update)
    moreover have "state_at ?h' ss (hl, rl, ll, ?moves)"
      using ssl by (simp add: state_at_def get_state_Inr)
    moreover have "get_letters ?h' ?moves = Inr (remove1 move ms)"
      using ssl by (simp add: get_letters_Inr nth_append nth_list_update)
    ultimately show ?thesis
      by (intro exI [of _ ?h'] exI [of _ ?moves]) simp
  qed
qed

lemma except_state_fresh_lines:
  assumes len: "length h \<le> length h'" and same: "\<forall>a < length h. a \<noteq> ss \<longrightarrow> h' ! a = h ! a"
    and ss: "state_at h ss refs" and fr: "fresh_lines n h a"
  shows "fresh_lines n h' a"
proof -
  from ss obtain t b p1 p2 hl rl ll pm where "h ! ss = StateObj t b p1 p2 hl rl ll pm"
    by (cases refs) (auto simp: state_at_def get_state_Inr)
  then have keep: "h' ! c = h ! c \<and> c < length h'"
    if "c < length h" "(\<exists>xs. h ! c = StrList xs) \<or> (\<exists>rs. h ! c = LeyList rs) \<or> (\<exists>v la. h ! c = LeyObj v la)"
    for c
    using that same len by auto
  have letters: "get_letters h' c = Inr xs" if "get_letters h c = Inr xs" for c xs
    using that keep [of c] by (auto simp: get_letters_Inr)
  have leyline: "get_leyline h' c = Inr (v, la)" if "get_leyline h c = Inr (v, la)" for c v la
    using that keep [of c] by (auto simp: get_leyline_Inr)
  have lines: "get_lines h' c = Inr rs" if "get_lines h c = Inr rs" for c rs
    using that keep [of c] by (auto simp: get_lines_Inr)
  from fr obtain rs where a: "n \<le> a" "get_lines h a = Inr rs"
    and all: "\<forall>r \<in> set rs. fresh_ley n h r"
    by (auto simp: fresh_lines_def)
  have "fresh_ley n h' r" if "r \<in> set rs" for r
  proof -
    from all that obtain v la xs where "n \<le> r" "get_leyline h r = Inr (v, la)" "n \<le> la"
      "get_letters h la = Inr xs"
      by (auto simp: fresh_ley_def)
    with leyline [of r v la] letters [of la xs] show ?thesis
      by (auto simp: fresh_ley_def)
  qed
  with a lines [of a rs] show ?thesis by (auto simp: fresh_lines_def)
qed

subsection \<open>Reading a state\<close>

lemma read_leyline_Inr:
  "read_leyline h r = Inr y \<longleftrightarrow>
     (\<exists>v la xs. get_leyline h r = Inr (v, la) \<and> get_letters h la = Inr xs \<and>
                y = \<lparr>ley_value = v, letters = xs\<rparr>)"
  by (auto simp: read_leyline_def split: sum.splits)

lemma read_lines_Inr:
  "read_lines h a = Inr ls \<longleftrightarrow>
     (\<exists>rs. get_lines h a = Inr rs \<and> list_all2 (\<lambda>r y. read_leyline h r = Inr y) rs ls)"
  by (auto simp: read_lines_def map_result_Inr_iff split: sum.splits)

lemma read_state_Inr:
  "read_state h a = Inr s \<longleftrightarrow>
     (\<exists>t b p1 p2 hl rl ll pm hls rls lls ms.
        get_state h a = Inr (t, b, p1, p2, hl, rl, ll, pm) \<and>
        read_lines h hl = Inr hls \<and> read_lines h rl = Inr rls \<and> read_lines h ll = Inr lls \<and>
        get_letters h pm = Inr ms \<and>
        s = \<lparr>p1_turn = t, b_length = b, p1_score = p1, p2_score = p2,
             h_lines = hls, r_lines = rls, l_lines = lls, possible_moves = ms\<rparr>)"
proof (cases "get_state h a")
  case (Inl e)
  then show ?thesis by (simp add: read_state_def)
next
  case (Inr st)
  obtain t b p1 p2 hl rl ll pm where st: "st = (t, b, p1, p2, hl, rl, ll, pm)"
    by (cases st) auto
  show ?thesis
    unfolding read_state_def Inr st
    by (cases "read_lines h hl"; cases "read_lines h rl"; cases "read_lines h ll";
        cases "get_letters h pm") auto
qed

lemma read_lines_typed:
  assumes "read_lines h a = Inr ls"
  shows "fresh_lines 0 h a"
proof -
  from assms obtain rs where rs: "get_lines h a = Inr rs"
    and all: "list_all2 (\<lambda>r y. read_leyline h r = Inr y) rs ls"
    by (auto simp: read_lines_Inr)
  have "fresh_ley 0 h r" if r: "r \<in> set rs" for r
  proof -
    from all r obtain y where "read_leyline h r = Inr y"
      by (auto simp: list_all2_conv_all_nth in_set_conv_nth)
    then show ?thesis by (auto simp: fresh_ley_def read_leyline_Inr)
  qed
  with rs show ?thesis by (auto simp: fresh_lines_def)
qed

lemma read_lines_extends:
  assumes "read_lines h a = Inr ls"
  shows "read_lines (h @ ext) a = Inr ls"
proof -
  from assms obtain rs where rs: "get_lines h a = Inr rs"
    and all: "list_all2 (\<lambda>r y. read_leyline h r = Inr y) rs ls"
    by (auto simp: read_lines_Inr)
  have keep: "read_leyline (h @ ext) r = Inr y" if "read_leyline h r = Inr y" for r y
    using that by (auto simp: read_leyline_Inr get_leyline_Inr get_letters_Inr nth_append)
  from all have "list_all2 (\<lambda>r y. read_leyline (h @ ext) r = Inr y) rs ls"
    by (rule list_all2_mono) (rule keep)
  moreover from rs have "get_lines (h @ ext) a = Inr rs" by (simp add: get_lines_Inr nth_append)
  ultimately show ?thesis by (auto simp: read_lines_Inr)
qed

lemma read_state_extends:
  assumes "read_state h a = Inr s"
  shows "read_state (h @ ext) a = Inr s"
proof -
  from assms obtain t b p1 p2 hl rl ll pm hls rls lls ms where
    st: "get_state h a = Inr (t, b, p1, p2, hl, rl, ll, pm)"
    and l: "read_lines h hl = Inr hls" "read_lines h rl = Inr rls" "read_lines h ll = Inr lls"
    and ms: "get_letters h pm = Inr ms"
    and s: "s = \<lparr>p1_turn = t, b_length = b, p1_score = p1, p2_score = p2,
                 h_lines = hls, r_lines = rls, l_lines = lls, possible_moves = ms\<rparr>"
    unfolding read_state_Inr by blast
  from st have "get_state (h @ ext) a = Inr (t, b, p1, p2, hl, rl, ll, pm)"
    by (simp add: get_state_Inr nth_append)
  moreover from ms have "get_letters (h @ ext) pm = Inr ms"
    by (simp add: get_letters_Inr nth_append)
  ultimately show ?thesis
    unfolding read_state_Inr using l [THEN read_lines_extends, of ext] s by blast
qed

lemma read_state_parts:
  assumes "read_state h a = Inr s"
  obtains t b p1 p2 hl rl ll pm where
    "get_state h a = Inr (t, b, p1, p2, hl, rl, ll, pm)"
    "fresh_lines 0 h hl" "fresh_lines 0 h rl" "fresh_lines 0 h ll"
    "get_letters h pm = Inr (possible_moves s)"
proof -
  from assms obtain t b p1 p2 hl rl ll pm hls rls lls ms where
    st: "get_state h a = Inr (t, b, p1, p2, hl, rl, ll, pm)"
    and l: "read_lines h hl = Inr hls" "read_lines h rl = Inr rls" "read_lines h ll = Inr lls"
    and ms: "get_letters h pm = Inr ms"
    and s: "s = \<lparr>p1_turn = t, b_length = b, p1_score = p1, p2_score = p2,
                 h_lines = hls, r_lines = rls, l_lines = lls, possible_moves = ms\<rparr>"
    unfolding read_state_Inr by blast
  from that [OF st l [THEN read_lines_typed]] ms s show thesis by simp
qed

subsection \<open>The frame of make\_move\<close>

text \<open>
  \<open>new_state n h ss\<close>: the state at \<open>ss\<close>, its three lists of leylines, their leylines,
  the lists of letters of these and its list of moves all lie at or above \<open>n\<close>.
\<close>

definition new_state :: "nat \<Rightarrow> heap \<Rightarrow> nat \<Rightarrow> bool" where
  "new_state n h ss \<longleftrightarrow>
     n \<le> ss \<and>
     (\<exists>hl rl ll pm. state_at h ss (hl, rl, ll, pm) \<and>
        fresh_lines n h hl \<and> fresh_lines n h rl \<and> fresh_lines n h ll \<and>
        n \<le> pm \<and> (\<exists>xs. get_letters h pm = Inr xs))"

lemma take_old:
  assumes "length h \<le> length h'" and "\<forall>a < length h. h' ! a = h ! a"
  shows "take (length h) h' = h"
  using assms by (intro nth_equalityI) simp_all

lemma heap_make_move_ok:
  assumes rd: "read_state h self = Inr s" and m: "move \<in> set (possible_moves s)"
  shows "\<exists>h' ss. heap_make_move h self move = Inr (h', ss) \<and>
           take (length h) h' = h \<and> new_state (length h) h' ss"
proof -
  let ?n = "length h"
  from rd obtain t b p1 p2 hl rl ll pm where
    st: "get_state h self = Inr (t, b, p1, p2, hl, rl, ll, pm)"
    and typed: "fresh_lines 0 h hl" "fresh_lines 0 h rl" "fresh_lines 0 h ll"
    and ms: "get_letters h pm = Inr (possible_moves s)"
    by (rule read_state_parts)
  from st have self: "self < ?n" by (simp add: get_state_Inr)
  from ms have pm: "pm < ?n" by (simp add: get_letters_Inr)
  \<comment> \<open>the three deep copies\<close>
  from deepcopy_lines_ok [OF typed(1)] obtain h1 where
    c1: "deepcopy_lines h hl = Inr (h1, ?n)" and e1: "evolves ?n h h1"
    and l1: "?n < length h1" and f1: "fresh_lines ?n h1 ?n"
    by blast
  from deepcopy_lines_ok [OF evolves_fresh_lines [OF e1 typed(3)]] obtain h2 where
    c2: "deepcopy_lines h1 ll = Inr (h2, length h1)" and e2: "evolves (length h1) h1 h2"
    and l2: "length h1 < length h2" and f2: "fresh_lines (length h1) h2 (length h1)"
    by blast
  from e2 l1 have e2': "evolves ?n h1 h2" by (intro evolves_weaken [OF e2]) simp
  from deepcopy_lines_ok [OF evolves_fresh_lines [OF e2' evolves_fresh_lines [OF e1 typed(2)]]]
  obtain h3 where
    c3: "deepcopy_lines h2 rl = Inr (h3, length h2)" and e3: "evolves (length h2) h2 h3"
    and l3: "length h2 < length h3" and f3: "fresh_lines (length h2) h3 (length h2)"
    by blast
  from e3 l1 l2 have e3': "evolves ?n h2 h3" by (intro evolves_weaken [OF e3]) simp
  \<comment> \<open>the new state\<close>
  let ?h4 = "h3 @ [StrList (py_slice_to ALPHA ((b * b + 5 * b) div 2))]"
  let ?ss = "length ?h4"
  let ?refs = "(?n, length h2, length h1, length h3)"
  let ?h5 = "?h4 @ [StateObj t b p1 p2 ?n (length h2) (length h1) (length h3)]"
  have e5: "evolves ?n h3 ?h5" using evolves_append [of ?n h3] by simp
  have ss5: "state_at ?h5 ?ss ?refs" by (simp add: state_at_def get_state_Inr nth_append)
  have nss: "?n \<le> ?ss" using l1 l2 l3 by simp
  have fh5: "fresh_lines ?n ?h5 ?n"
    using f1 e2' e3' e5 by (blast intro: evolves_fresh_lines)
  have fl5: "fresh_lines ?n ?h5 (length h1)"
    using fresh_lines_weaken [OF f2, of ?n] l1 e3' e5 by (auto intro: evolves_fresh_lines)
  have fr5: "fresh_lines ?n ?h5 (length h2)"
    using fresh_lines_weaken [OF f3, of ?n] l1 l2 e5 by (auto intro: evolves_fresh_lines)
  \<comment> \<open>the letter is changed in the three families\<close>
  from heap_change_family_ok [OF fh5 ss5 nss] obtain h6 where
    c6: "heap_change_family ?h5 ?ss move ?n = Inr h6" and e6: "evolves ?n ?h5 h6"
    by blast
  from heap_change_family_ok [OF evolves_fresh_lines [OF e6 fr5] evolves_state_at [OF e6 ss5] nss]
  obtain h7 where
    c7: "heap_change_family h6 ?ss move (length h2) = Inr h7" and e7: "evolves ?n h6 h7"
    by blast
  note e67 = evolves_trans [OF e6 e7]
  from heap_change_family_ok [OF evolves_fresh_lines [OF e67 fl5] evolves_state_at [OF e67 ss5] nss]
  obtain h8 where
    c8: "heap_change_family h7 ?ss move (length h1) = Inr h8" and e8: "evolves ?n h7 h8"
    by blast
  note e58 = evolves_trans [OF e67 e8]
  have e08: "evolves ?n h h8"
    using e1 e2' e3' e5 e58 by (blast intro: evolves_trans)
  \<comment> \<open>the moves\<close>
  from e08 have old8: "h8 ! a = h ! a" "a < length h8" if "a < ?n" for a
    using that by (auto simp: evolves_def)
  from st old8 [OF self] have st8: "get_state h8 self = Inr (t, b, p1, p2, hl, rl, ll, pm)"
    by (simp add: get_state_Inr)
  from ms old8 [OF pm] have ms8: "get_letters h8 pm = Inr (possible_moves s)"
    by (simp add: get_letters_Inr)
  note ss8 = evolves_state_at [OF e58 ss5]
  from heap_set_moves_ok [OF st8 ms8 m ss8] obtain h9 pm' where
    c9: "heap_set_moves h8 self ?ss move = Inr h9" and l9: "length h8 \<le> length h9"
    and same9: "\<forall>a < length h8. a \<noteq> ?ss \<longrightarrow> h9 ! a = h8 ! a"
    and ss9: "state_at h9 ?ss (?n, length h2, length h1, pm')"
    and pm9: "length h8 \<le> pm'" "\<exists>xs. get_letters h9 pm' = Inr xs"
    by blast
  have run: "heap_make_move h self move = Inr (h9, ?ss)"
    using st c1 c2 c3 c6 c7 c8 c9 by (simp add: heap_make_move_def Let_def)
  have len8: "?n \<le> length h8" using e08 by (simp add: evolves_def)
  have "\<forall>a < ?n. h9 ! a = h ! a"
    using same9 old8 nss by auto
  with len8 l9 have frame: "take ?n h9 = h" by (intro take_old) simp_all
  have "fresh_lines ?n h9 ?n" "fresh_lines ?n h9 (length h2)" "fresh_lines ?n h9 (length h1)"
    using except_state_fresh_lines [OF l9 same9 ss8] evolves_fresh_lines [OF e58] fh5 fr5 fl5
    by blast+
  with ss9 pm9 len8 nss have "new_state ?n h9 ?ss"
    unfolding new_state_def by (intro conjI exI [of _ ?n] exI [of _ "length h2"] exI [of _ "length h1"] exI [of _ pm']) simp_all
  with run frame show ?thesis by blast
qed

text \<open>
  Claim C8 (frame of \<open>make_move\<close>).  For a store \<open>h\<close> that holds a state \<open>s\<close> at
  \<open>self\<close> and a move of its \<open>possible_moves\<close>: \<open>make_move\<close> returns the address \<open>ss\<close> of a
  state in a store \<open>h'\<close> whose first \<open>length h\<close> objects are those of \<open>h\<close>, unchanged, so
  that the receiver still reads as \<open>s\<close>; and the new state, its three lists of leylines,
  every leyline in them, every list of letters of these and its list of moves lie above
  the objects of \<open>h\<close>: they are new, and none is an object of the receiver.
\<close>

theorem make_move_frame:
  assumes "read_state h self = Inr s" and "move \<in> set (possible_moves s)"
  shows "\<exists>h' ss. heap_make_move h self move = Inr (h', ss) \<and>
           take (length h) h' = h \<and> read_state h' self = Inr s \<and>
           new_state (length h) h' ss"
proof -
  from heap_make_move_ok [OF assms] obtain h' ss where
    run: "heap_make_move h self move = Inr (h', ss)" and frame: "take (length h) h' = h"
    and new: "new_state (length h) h' ss"
    by blast
  from frame have "h' = h @ drop (length h) h'" by (metis append_take_drop_id)
  with read_state_extends [OF assms(1), of "drop (length h) h'"]
  have "read_state h' self = Inr s" by simp
  with run frame new show ?thesis by blast
qed

text \<open>The opening state of the board of length 2 on an empty store.\<close>

definition heap2 :: heap where
  "heap2 = fst (store_state [] state2)"

definition self2 :: nat where
  "self2 = snd (store_state [] state2)"

theorem make_move_frame_witness:
  "read_state heap2 self2 = Inr state2 \<and> ''A'' \<in> set (possible_moves state2) \<and>
   length heap2 = 23 \<and> self2 = 22 \<and>
   (\<exists>h' ss. heap_make_move heap2 self2 ''A'' = Inr (h', ss) \<and> ss = 45 \<and>
       take 23 h' = heap2 \<and> read_state h' self2 = Inr state2 \<and>
       read_state h' ss = make_move state2 ''A'' \<and> new_state 23 h' ss)"
proof -
  have rd: "read_state heap2 self2 = Inr state2" by code_simp
  have m: "''A'' \<in> set (possible_moves state2)" by (simp add: state2_def)
  have len: "length heap2 = 23" "self2 = 22" by code_simp+
  from make_move_frame [OF rd m] obtain h' ss where
    run: "heap_make_move heap2 self2 ''A'' = Inr (h', ss)"
    and rest: "take (length heap2) h' = heap2" "read_state h' self2 = Inr state2"
      "new_state (length heap2) h' ss"
    by blast
  have ev: "case heap_make_move heap2 self2 ''A'' of
          Inl e \<Rightarrow> False
        | Inr (h', ss) \<Rightarrow> ss = 45 \<and> read_state h' ss = make_move state2 ''A''"
    by code_simp
  have "ss = 45 \<and> read_state h' ss = make_move state2 ''A''"
    using ev unfolding run sum.case prod.case .
  then have "ss = 45" "read_state h' ss = make_move state2 ''A''" by blast+
  with rd m len run rest show ?thesis by simp
qed

end
